theory Spec2Isabelle
  imports Complex_Main "HOL-Library.Word"
begin

chapter \<open>BlueBuzzah firmware: framing, SYNC handling, recovery, boot and statistics\<close>

section \<open>EOT framing on the UART link (ble.py)\<close>

subsection \<open>Bytes, strings and UTF-8\<close>

text \<open>
  The UART delivers bytes. \<^verbatim>\<open>bytes.decode('utf-8')\<close> yields a Python string, a
  sequence of code points, or raises UnicodeError on a malformed sequence (an overlong
  form, a surrogate, a value above U+10FFFF, a stray or missing continuation byte):
  \<^const>\<open>None\<close> here.
\<close>

type_synonym byte = "8 word"

type_synonym pystr = "nat list"

definition EOT :: byte where
  "EOT = 0x04"

definition is_cont :: "byte \<Rightarrow> bool" where
  "is_cont c = (0x80 \<le> c \<and> c \<le> 0xBF)"

definition low6 :: "byte \<Rightarrow> nat" where
  "low6 c = unat c mod 64"

fun utf8_decode :: "byte list \<Rightarrow> pystr option" where
  "utf8_decode [] = Some []"
| "utf8_decode (b # bs) =
     (if b < 0x80 then map_option ((#) (unat b)) (utf8_decode bs)
      else if 0xC2 \<le> b \<and> b \<le> 0xDF then
        (case bs of
           c1 # r \<Rightarrow>
             if is_cont c1
             then map_option ((#) ((unat b mod 32) * 64 + low6 c1)) (utf8_decode r)
             else None
         | _ \<Rightarrow> None)
      else if 0xE0 \<le> b \<and> b \<le> 0xEF then
        (case bs of
           c1 # c2 # r \<Rightarrow>
             if is_cont c1 \<and> is_cont c2
                \<and> (if b = 0xE0 then 0xA0 \<le> c1 else True)
                \<and> (if b = 0xED then c1 \<le> 0x9F else True)
             then map_option ((#) ((unat b mod 16) * 4096 + low6 c1 * 64 + low6 c2))
                    (utf8_decode r)
             else None
         | _ \<Rightarrow> None)
      else if 0xF0 \<le> b \<and> b \<le> 0xF4 then
        (case bs of
           c1 # c2 # c3 # r \<Rightarrow>
             if is_cont c1 \<and> is_cont c2 \<and> is_cont c3
                \<and> (if b = 0xF0 then 0x90 \<le> c1 else True)
                \<and> (if b = 0xF4 then c1 \<le> 0x8F else True)
             then map_option
                    ((#) ((unat b mod 8) * 262144 + low6 c1 * 4096 + low6 c2 * 64 + low6 c3))
                    (utf8_decode r)
             else None
         | _ \<Rightarrow> None)
      else None)"

subsection \<open>Connections\<close>

text \<open>
  A \<^verbatim>\<open>BLEConnection\<close> owns the accumulator \<^verbatim>\<open>_msg_buffer\<close> (a bytearray of 512
  bytes filled up to \<^verbatim>\<open>_msg_len\<close>) and the queue \<^verbatim>\<open>_pending_messages\<close>. The two
  collaborators it holds are modelled by what the code reads from them:
  \<^verbatim>\<open>ble_connection.connected\<close> is the flag \<open>connected\<close>, and the UART service is the
  list \<open>uart\<close> of the byte blocks that successive \<^verbatim>\<open>readinto(rx_buf)\<close> calls will
  return before the deadline of the call (each at most the 256 bytes of \<^verbatim>\<open>_rx_buffer\<close>;
  an empty block is a poll that read nothing). The time stamps \<^verbatim>\<open>connected_at\<close> and
  \<^verbatim>\<open>last_seen\<close> and the console output are left out.
\<close>

record BLEConnection =
  connected :: bool
  uart :: "byte list list"
  msg_buffer :: "byte list"
  msg_len :: nat
  pending_messages :: "pystr list"

definition BLEConnection_init :: BLEConnection where
  "BLEConnection_init =
     \<lparr> connected = True,
       uart = [],
       msg_buffer = replicate 512 0,
       msg_len = 0,
       pending_messages = [] \<rparr>"

text \<open>The dictionary \<^verbatim>\<open>BLE._connections\<close>, from connection id to connection.\<close>

type_synonym BLE = "string \<rightharpoonup> BLEConnection"

subsection \<open>receive\<close>

text \<open>
  The \<^verbatim>\<open>for i in range(bytes_read)\<close> loop of \<^verbatim>\<open>receive\<close>. It mutates the buffer
  and the queue in place and keeps the length in the local \<^verbatim>\<open>msg_len\<close>. The second
  component of the result is the final \<^verbatim>\<open>msg_len\<close>, or \<^const>\<open>None\<close> when
  \<^verbatim>\<open>decode\<close> raised and the loop was left through the exception handler.
\<close>

fun process_bytes ::
  "byte list \<Rightarrow> byte list \<Rightarrow> nat \<Rightarrow> pystr list \<Rightarrow> byte list \<times> nat option \<times> pystr list" where
  "process_bytes [] msg_buf len pending = (msg_buf, Some len, pending)"
| "process_bytes (b # bs) msg_buf len pending =
     (if b = EOT then
        (if len > 0 then
           (case utf8_decode (take len msg_buf) of
              None \<Rightarrow> (msg_buf, None, pending)
            | Some message \<Rightarrow> process_bytes bs msg_buf 0 (pending @ [message]))
         else process_bytes bs msg_buf 0 pending)
      else if len < length msg_buf then process_bytes bs (msg_buf[len := b]) (len + 1) pending
      else process_bytes bs msg_buf 0 pending)"

text \<open>
  What a call of \<^verbatim>\<open>receive\<close> does: it returns a message, returns \<^verbatim>\<open>None\<close>, or,
  when it was given no timeout and no message is ever completed, does not return.
\<close>

datatype received = Message pystr | Nothing | Blocks

text \<open>
  The \<^verbatim>\<open>while True\<close> loop. The argument \<open>timed\<close> says that \<^verbatim>\<open>timeout\<close> is a
  non-zero number (app.py passes 0.01); the loop ends with \<^verbatim>\<open>None\<close> when the deadline
  passes, which is when the blocks of \<open>uart\<close> are used up. After an exception
  \<^verbatim>\<open>conn._msg_len\<close> keeps the value it had before the block was processed.
\<close>

fun receive_loop :: "bool \<Rightarrow> byte list list \<Rightarrow> BLEConnection \<Rightarrow> received \<times> BLEConnection" where
  "receive_loop timed [] conn = (if timed then Nothing else Blocks, conn\<lparr>uart := []\<rparr>)"
| "receive_loop timed (chunk # rest) conn =
     (if chunk = [] then receive_loop timed rest conn
      else case process_bytes chunk (msg_buffer conn) (msg_len conn) (pending_messages conn) of
             (buf, None, pend) \<Rightarrow>
               (Nothing, conn\<lparr>uart := rest, msg_buffer := buf, pending_messages := pend\<rparr>)
           | (buf, Some len, pend) \<Rightarrow>
               (case pend of
                  [] \<Rightarrow> receive_loop timed rest (conn\<lparr>msg_buffer := buf, msg_len := len\<rparr>)
                | message # queue \<Rightarrow>
                    (Message message,
                     conn\<lparr>uart := rest, msg_buffer := buf, msg_len := len,
                          pending_messages := queue\<rparr>)))"

definition receive :: "BLE \<Rightarrow> string \<Rightarrow> bool \<Rightarrow> received \<times> BLE" where
  "receive ble conn_id timed =
     (case ble conn_id of
        None \<Rightarrow> (Nothing, ble)
      | Some conn \<Rightarrow>
          if \<not> connected conn then (Nothing, ble)
          else (case pending_messages conn of
                  message # queue \<Rightarrow>
                    (Message message, ble(conn_id \<mapsto> conn\<lparr>pending_messages := queue\<rparr>))
                | [] \<Rightarrow>
                    (case receive_loop timed (uart conn) conn of
                       (r, conn') \<Rightarrow> (r, ble(conn_id \<mapsto> conn')))))"

text \<open>Successive calls of \<^verbatim>\<open>receive\<close> on one connection, with their results in order.\<close>

fun receive_n :: "nat \<Rightarrow> BLE \<Rightarrow> string \<Rightarrow> bool \<Rightarrow> received list \<times> BLE" where
  "receive_n 0 ble conn_id timed = ([], ble)"
| "receive_n (Suc n) ble conn_id timed =
     (case receive ble conn_id timed of
        (r, ble') \<Rightarrow> (case receive_n n ble' conn_id timed of (rs, ble'') \<Rightarrow> (r # rs, ble'')))"

text \<open>
  The states of a \<^verbatim>\<open>BLE\<close> object: it starts without connections;
  \<^verbatim>\<open>wait_for_connection\<close> and \<^verbatim>\<open>scan_and_connect\<close> store a new
  \<^verbatim>\<open>BLEConnection\<close>; \<^verbatim>\<open>disconnect\<close> deletes one; the link delivers blocks of bytes
  and goes up and down; \<^verbatim>\<open>receive\<close> is called and returns.
\<close>

inductive reachable :: "BLE \<Rightarrow> bool" where
  start: "reachable Map.empty"
| connect: "reachable ble \<Longrightarrow> reachable (ble(conn_id \<mapsto> BLEConnection_init))"
| disconnect: "reachable ble \<Longrightarrow> reachable (ble(conn_id := None))"
| deliver: "reachable ble \<Longrightarrow> ble conn_id = Some conn \<Longrightarrow>
            reachable (ble(conn_id \<mapsto> conn\<lparr>uart := uart conn @ [chunk]\<rparr>))"
| link: "reachable ble \<Longrightarrow> ble conn_id = Some conn \<Longrightarrow>
         reachable (ble(conn_id \<mapsto> conn\<lparr>connected := up\<rparr>))"
| received: "reachable ble \<Longrightarrow> receive ble conn_id timed = (r, ble') \<Longrightarrow> r \<noteq> Blocks \<Longrightarrow>
             reachable ble'"

text \<open>The wire form of a list of payloads: each followed by EOT, concatenated.\<close>

definition framed :: "byte list list \<Rightarrow> byte list" where
  "framed payloads = concat (map (\<lambda>p. p @ [EOT]) payloads)"

text \<open>
  What every connection of a reachable state satisfies: the buffer keeps its 512 bytes, the
  fill length stays within it, and no queued message is the empty string.
\<close>

definition wf_connection :: "BLEConnection \<Rightarrow> bool" where
  "wf_connection conn =
     (length (msg_buffer conn) = 512 \<and> msg_len conn \<le> 512
      \<and> [] \<notin> set (pending_messages conn))"

subsection \<open>Concrete links\<close>

text \<open>One read that carries the two messages "AB" and "C".\<close>

definition two_messages :: BLE where
  "two_messages =
     [''primary'' \<mapsto> BLEConnection_init\<lparr>uart := [framed [[0x41, 0x42], [0x43]]]\<rparr>]"

text \<open>A message of 514 letters "A" and its EOT, in three reads of at most 256 bytes.\<close>

definition oversized :: BLE where
  "oversized =
     [''primary'' \<mapsto> BLEConnection_init
        \<lparr>uart := [replicate 256 0x41, replicate 256 0x41, [0x41, 0x41, EOT]]\<rparr>]"

text \<open>The same oversized message followed by the message "B".\<close>

definition oversized_then_b :: BLE where
  "oversized_then_b =
     [''primary'' \<mapsto> BLEConnection_init
        \<lparr>uart := [replicate 256 0x41, replicate 256 0x41, [0x41, 0x41, EOT, 0x42, EOT]]\<rparr>]"

text \<open>An EOT with nothing before it, then the message "A".\<close>

definition empty_frame_first :: BLE where
  "empty_frame_first =
     [''primary'' \<mapsto> BLEConnection_init\<lparr>uart := [[EOT, 0x41, EOT]]\<rparr>]"

text \<open>
  The bytes "AB" without an EOT, then a byte that is not UTF-8 and an EOT, then the
  message "C" with its EOT, in three reads.
\<close>

definition bad_frame_then_c :: BLE where
  "bad_frame_then_c =
     [''primary'' \<mapsto> BLEConnection_init\<lparr>uart := [[0x41, 0x42], [0xFF, EOT], [0x43, EOT]]\<rparr>]"

section \<open>Sync statistics (sync\_stats.py)\<close>

text \<open>
  \<^verbatim>\<open>SyncStats\<close> keeps three Python lists that are appended to and popped from the
  front together. \<^verbatim>\<open>max_samples\<close> is the capacity of the buffers (a count; the
  callers pass 100, 200 and 50), the samples are integer microseconds, and the time stamp
  of \<^verbatim>\<open>time.monotonic()\<close> is left as a type parameter.
\<close>

record 't SyncStats =
  max_samples :: nat
  network_latency_samples :: "int list"
  execution_time_samples :: "int list"
  total_latency_samples :: "int list"
  sample_count :: nat
  last_sample_time :: "'t option"

definition SyncStats_init :: "nat \<Rightarrow> 't SyncStats" where
  "SyncStats_init mx =
     \<lparr> max_samples = mx,
       network_latency_samples = [],
       execution_time_samples = [],
       total_latency_samples = [],
       sample_count = 0,
       last_sample_time = None \<rparr>"

text \<open>
  \<^verbatim>\<open>add_sample\<close>: three appends, then one length test on the network buffer that
  guards three \<^verbatim>\<open>pop(0)\<close> calls. After the appends no list is empty, so
  \<^verbatim>\<open>pop(0)\<close> cannot raise and is \<^const>\<open>tl\<close>. The first argument is the value
  \<^verbatim>\<open>time.monotonic()\<close> returns at the end of the call.
\<close>

definition add_sample :: "'t \<Rightarrow> int \<Rightarrow> int \<Rightarrow> int \<Rightarrow> 't SyncStats \<Rightarrow> 't SyncStats" where
  "add_sample now network_latency_us execution_time_us total_latency_us s =
     (let net = network_latency_samples s @ [network_latency_us];
          exe = execution_time_samples s @ [execution_time_us];
          tot = total_latency_samples s @ [total_latency_us];
          over = (length net > max_samples s)
      in s\<lparr> network_latency_samples := (if over then tl net else net),
            execution_time_samples := (if over then tl exe else exe),
            total_latency_samples := (if over then tl tot else tot),
            sample_count := sample_count s + 1,
            last_sample_time := Some now \<rparr>)"

text \<open>A run of \<^verbatim>\<open>add_sample\<close> calls; each call is (now, network, execution, total).\<close>

fun add_samples :: "('t \<times> int \<times> int \<times> int) list \<Rightarrow> 't SyncStats \<Rightarrow> 't SyncStats" where
  "add_samples [] s = s"
| "add_samples ((now, n, e, t) # calls) s = add_samples calls (add_sample now n e t s)"

text \<open>
  The true division of two integers, \<^verbatim>\<open>a / b\<close>, gives the double nearest to the
  quotient and raises OverflowError when there is none in range. The largest double is
  \<open>2^1024 - 2^971\<close>; a quotient rounds beyond it exactly when its magnitude reaches
  \<open>2^1024 - 2^970\<close>, the midpoint to the next power of two.
\<close>

definition FLOAT_OVERFLOW :: int where
  "FLOAT_OVERFLOW = 2 ^ 1024 - 2 ^ 970"

definition division_overflows :: "int \<Rightarrow> int \<Rightarrow> bool" where
  "division_overflows a b = (\<bar>a\<bar> \<ge> FLOAT_OVERFLOW * \<bar>b\<bar>)"

text \<open>
  \<^verbatim>\<open>get_statistics\<close> computes one dictionary per metric from the sorted samples. The
  entry for the mean is computed first: \<^verbatim>\<open>sum(sorted_samples) / n\<close> raises
  ZeroDivisionError on an empty list and OverflowError when the quotient is beyond the
  range of a double; the mean is kept as the exact quotient, of which Python takes the
  nearest double. The index \<^verbatim>\<open>int(n * 0.95)\<close> is \<open>95 * n div 100\<close>: the double
  nearest to 0.95 differs from it by less than one part in \<open>2^54\<close>, so for every length
  that a list in memory can have (below \<open>10^14\<close>) the product rounds to the exact integer
  whenever 20 divides \<open>n\<close> and lies strictly between two integers otherwise; the same
  holds for 0.99 and multiples of 100.
\<close>

datatype stats_error = ZeroDivisionError | OverflowError

record metric_stats =
  mean :: rat
  median :: int
  min_sample :: int
  max_sample :: int
  p95 :: int
  p99 :: int
  metric_count :: nat

definition metric_statistics :: "int list \<Rightarrow> stats_error + metric_stats" where
  "metric_statistics samples =
     (let sorted_samples = sort samples; n = length sorted_samples
      in if n = 0 then Inl ZeroDivisionError
         else if division_overflows (sum_list sorted_samples) (int n) then Inl OverflowError
         else Inr \<lparr> mean = Fract (sum_list sorted_samples) (int n),
                    median = sorted_samples ! (n div 2),
                    min_sample = sorted_samples ! 0,
                    max_sample = last sorted_samples,
                    p95 = (if n > 20 then sorted_samples ! (95 * n div 100)
                           else last sorted_samples),
                    p99 = (if n > 100 then sorted_samples ! (99 * n div 100)
                           else last sorted_samples),
                    metric_count = n \<rparr>)"

text \<open>
  The loop over the three metrics stops at the first exception. The result
  \<^term>\<open>Inr None\<close> is the \<^verbatim>\<open>None\<close> returned when no sample has been collected.
\<close>

record statistics =
  network_latency :: metric_stats
  execution_time :: metric_stats
  total_latency :: metric_stats

definition get_statistics :: "'t SyncStats \<Rightarrow> stats_error + statistics option" where
  "get_statistics s =
     (if network_latency_samples s = [] then Inr None
      else case metric_statistics (network_latency_samples s) of
             Inl e \<Rightarrow> Inl e
           | Inr a \<Rightarrow>
               (case metric_statistics (execution_time_samples s) of
                  Inl e \<Rightarrow> Inl e
                | Inr b \<Rightarrow>
                    (case metric_statistics (total_latency_samples s) of
                       Inl e \<Rightarrow> Inl e
                     | Inr c \<Rightarrow>
                         Inr (Some \<lparr> network_latency = a, execution_time = b,
                                     total_latency = c \<rparr>))))"

text \<open>
  The percentile rule in the words of the specification: with \<open>n\<close> samples, the sorted
  sample at index \<open>\<lfloor>q n / 100\<rfloor>\<close> when \<open>n\<close> reaches the threshold, the maximum
  otherwise.
\<close>

definition spec_percentile :: "nat \<Rightarrow> nat \<Rightarrow> int list \<Rightarrow> int" where
  "spec_percentile q threshold samples =
     (let n = length samples
      in if n \<ge> threshold then sort samples ! (q * n div 100) else Max (set samples))"

text \<open>
  A collector of capacity 200 after 200 samples: the network latencies 1 to 200, the
  execution time 7 throughout, and their sums as total latencies.
\<close>

definition full_buffer :: "nat SyncStats" where
  "full_buffer =
     add_samples (map (\<lambda>i. (i, int i, 7, int i + 7)) [1..<201]) (SyncStats_init 200)"

text \<open>A collector whose only sample is a network latency of \<open>10^400\<close> microseconds.\<close>

definition huge_latency :: "nat SyncStats" where
  "huge_latency = add_sample 1 (10 ^ 400) 7 (10 ^ 400 + 7) (SyncStats_init 200)"

section \<open>The application (app.py)\<close>

subsection \<open>Python values and strings\<close>

text \<open>
  Strings are lists of characters; the characters of Python strings above U+00FF are
  outside the model. The parser of SYNC messages builds its dictionary from pieces of the
  message: each value is a string, or the integer that \<^verbatim>\<open>int\<close> makes of it. These are
  the values the handler works on.
\<close>

datatype pyval = IntV int | StrV string

text \<open>
  The sender applies \<^verbatim>\<open>str\<close> to whatever values its callers pass: integers, strings,
  booleans, floats and \<^verbatim>\<open>None\<close>. A float is given by its \<^verbatim>\<open>repr\<close>, the string that
  \<^verbatim>\<open>str\<close> returns for it (23.5 is \<open>FloatO ''23.5''\<close>).
\<close>

datatype pyobj = IntO int | StrO string | BoolO bool | FloatO string | NoneO

text \<open>
  \<^verbatim>\<open>str.isspace\<close> on the code points below 256, which is what \<^verbatim>\<open>strip\<close> removes:
  tab to carriage return, the four separators U+001C to U+001F, the space, U+0085 and
  U+00A0.
\<close>

definition py_isspace :: "char \<Rightarrow> bool" where
  "py_isspace c =
     (let n = (of_char c :: nat)
      in (9 \<le> n \<and> n \<le> 13) \<or> (28 \<le> n \<and> n \<le> 32) \<or> n = 133 \<or> n = 160)"

definition py_strip :: "string \<Rightarrow> string" where
  "py_strip s = rev (dropWhile py_isspace (rev (dropWhile py_isspace s)))"

text \<open>\<^verbatim>\<open>s.split(c)\<close> for a one-character separator.\<close>

fun py_split :: "char \<Rightarrow> string \<Rightarrow> string list" where
  "py_split c [] = [[]]"
| "py_split c (x # xs) =
     (if x = c then [] # py_split c xs
      else (case py_split c xs of [] \<Rightarrow> [[x]] | p # ps \<Rightarrow> (x # p) # ps))"

text \<open>\<^verbatim>\<open>s.split(c, maxsplit)\<close>.\<close>

fun py_split_max :: "char \<Rightarrow> nat \<Rightarrow> string \<Rightarrow> string list" where
  "py_split_max c 0 s = [s]"
| "py_split_max c (Suc n) [] = [[]]"
| "py_split_max c (Suc n) (x # xs) =
     (if x = c then [] # py_split_max c n xs
      else (case py_split_max c (Suc n) xs of [] \<Rightarrow> [[x]] | p # ps \<Rightarrow> (x # p) # ps))"

text \<open>\<^verbatim>\<open>sep.join(parts)\<close>.\<close>

fun py_join :: "string \<Rightarrow> string list \<Rightarrow> string" where
  "py_join sep [] = []"
| "py_join sep [p] = p"
| "py_join sep (p # q # ps) = p @ sep @ py_join sep (q # ps)"

text \<open>
  \<^verbatim>\<open>str(n)\<close> of an integer: decimal digits, with a minus sign when negative. The
  conversion raises ValueError for an integer of more than 4300 digits (the limit
  \<^verbatim>\<open>sys.get_int_max_str_digits()\<close>), and so does every formatting of such an integer.
\<close>

definition digit_char :: "nat \<Rightarrow> char" where
  "digit_char d = ''0123456789'' ! d"

fun str_nat :: "nat \<Rightarrow> string" where
  "str_nat n = (if n < 10 then [digit_char n] else str_nat (n div 10) @ [digit_char (n mod 10)])"

declare str_nat.simps [simp del]

definition str_int :: "int \<Rightarrow> string" where
  "str_int i = (if i < 0 then CHR ''-'' # str_nat (nat (- i)) else str_nat (nat i))"

definition MAX_STR_DIGITS :: nat where
  "MAX_STR_DIGITS = 4300"

definition int_str_raises :: "int \<Rightarrow> bool" where
  "int_str_raises i = (length (str_nat (nat \<bar>i\<bar>)) > MAX_STR_DIGITS)"

text \<open>\<^verbatim>\<open>str(value)\<close>, and whether it raises.\<close>

fun py_str :: "pyobj \<Rightarrow> string" where
  "py_str (IntO i) = str_int i"
| "py_str (StrO s) = s"
| "py_str (BoolO b) = (if b then ''True'' else ''False'')"
| "py_str (FloatO r) = r"
| "py_str NoneO = ''None''"

fun str_raises :: "pyobj \<Rightarrow> bool" where
  "str_raises (IntO i) = int_str_raises i"
| "str_raises v = False"

text \<open>
  \<^verbatim>\<open>int(s)\<close> of a string, base 10. White space around the number is ignored; for
  \<^verbatim>\<open>int\<close> that is tab to carriage return, the space, U+0085 and U+00A0, and not the
  separators U+001C to U+001F that \<^verbatim>\<open>strip\<close> removes. One sign may lead, the digits may
  be grouped by single underscores, and there may be at most 4300 digits. \<^const>\<open>None\<close>
  is ValueError.
\<close>

definition int_isspace :: "char \<Rightarrow> bool" where
  "int_isspace c =
     (let n = (of_char c :: nat)
      in (9 \<le> n \<and> n \<le> 13) \<or> n = 32 \<or> n = 133 \<or> n = 160)"

definition int_strip :: "string \<Rightarrow> string" where
  "int_strip s = rev (dropWhile int_isspace (rev (dropWhile int_isspace s)))"

definition is_digit :: "char \<Rightarrow> bool" where
  "is_digit c = (48 \<le> (of_char c :: nat) \<and> (of_char c :: nat) \<le> 57)"

definition digit_val :: "char \<Rightarrow> nat" where
  "digit_val c = of_char c - 48"

fun dec_digits :: "string \<Rightarrow> bool" where
  "dec_digits [] = False"
| "dec_digits [c] = is_digit c"
| "dec_digits (c # d # r) =
     (is_digit c \<and> (if d = CHR ''_'' then dec_digits r else dec_digits (d # r)))"

definition parse_digits :: "string \<Rightarrow> int option" where
  "parse_digits ds =
     (if dec_digits ds \<and> length (filter (\<lambda>c. c \<noteq> CHR ''_'') ds) \<le> MAX_STR_DIGITS
      then Some (int (foldl (\<lambda>a c. 10 * a + digit_val c) 0 (filter (\<lambda>c. c \<noteq> CHR ''_'') ds)))
      else None)"

definition py_int :: "string \<Rightarrow> int option" where
  "py_int s =
     (case int_strip s of
        [] \<Rightarrow> None
      | c # r \<Rightarrow>
          if c = CHR ''-'' then map_option uminus (parse_digits r)
          else if c = CHR ''+'' then parse_digits r
          else parse_digits (c # r))"

text \<open>Truth value of a value in a condition: zero and the empty string are false.\<close>

fun truthy :: "pyval \<Rightarrow> bool" where
  "truthy (IntV i) = (i \<noteq> 0)"
| "truthy (StrV s) = (s \<noteq> [])"

subsection \<open>Types of the core package\<close>

text \<open>
  Modelled from the spec: the enumerations \<^verbatim>\<open>DeviceRole\<close>, \<^verbatim>\<open>BootResult\<close> and
  \<^verbatim>\<open>TherapyState\<close> of core/types.py and \<^verbatim>\<open>StateTrigger\<close> of state.py, which are
  imported by app.py and are not among the sources. The trigger called ERROR in the
  specification is \<open>ERROR_TRIGGER\<close> here.
\<close>

datatype DeviceRole = PRIMARY | SECONDARY

datatype BootResult = FAILED | SUCCESS | SUCCESS_NO_PHONE | SUCCESS_WITH_PHONE

datatype TherapyState =
  IDLE | READY | RUNNING | PAUSED | STOPPING | CONNECTION_LOST
  | LOW_BATTERY | CRITICAL_BATTERY | ERROR

datatype StateTrigger =
  CONNECTED | DISCONNECTED | START_SESSION | PAUSE_SESSION | RESUME_SESSION | STOP_SESSION
  | STOPPED | ERROR_TRIGGER | EMERGENCY_STOP

text \<open>
  Modelled from the spec: \<^verbatim>\<open>TherapyStateMachine.transition\<close> of state.py, the
  transition table of section 3; a trigger without an entry leaves the state unchanged.
  \<^verbatim>\<open>force_state(target)\<close> sets the state to the target. The observers of the state
  machine (a console line and an LED update) are not modelled.
\<close>

fun transition :: "TherapyState \<Rightarrow> StateTrigger \<Rightarrow> TherapyState" where
  "transition s DISCONNECTED = CONNECTION_LOST"
| "transition s ERROR_TRIGGER = ERROR"
| "transition s EMERGENCY_STOP = ERROR"
| "transition IDLE CONNECTED = READY"
| "transition READY START_SESSION = RUNNING"
| "transition IDLE START_SESSION = RUNNING"
| "transition RUNNING PAUSE_SESSION = PAUSED"
| "transition PAUSED RESUME_SESSION = RUNNING"
| "transition RUNNING STOP_SESSION = STOPPING"
| "transition PAUSED STOP_SESSION = STOPPING"
| "transition STOPPING STOPPED = IDLE"
| "transition s t = s"

subsection \<open>Application state and collaborators\<close>

text \<open>
  The calls that the modelled methods make on their collaborators (the haptic controller,
  the LED controllers, the therapy engine, the BLE radio, \<^verbatim>\<open>time.sleep\<close>) are recorded in
  order in a trace, together with the warning and error lines they print. Informational
  and debug console output is left out, except the debug line for an unknown command.
\<close>

datatype led_call =
  indicate_ble_init | indicate_failure | indicate_ready | indicate_connection_success
  | indicate_waiting_for_phone | update_animation | set_therapy_state TherapyState

datatype log_line =
  Invalid_sync_format
  | Sequence_gap int
  | Failed_to_activate pyval
  | Failed_to_deactivate
  | Failed_to_handle_sync
  | Unknown_sync_command string
  | Failed_to_stop_motors
  | Reconnect_attempt_failed nat
  | Failed_to_advertise

datatype event =
  Led led_call
  | Log log_line
  | Sleep real
  | Advertise string
  | Haptic_activate pyval pyval
  | Haptic_deactivate pyval
  | Haptic_emergency_stop
  | Engine_pause
  | Engine_resume
  | Engine_stop
  | Scan_and_connect string real string
  | State_transition StateTrigger
  | Force_state TherapyState

text \<open>
  The attributes of \<^verbatim>\<open>BlueBuzzahApplication\<close> that the modelled methods read or write.
  \<open>therapy_state\<close> is the current state of \<^verbatim>\<open>self.state_machine\<close>, \<open>ble_link\<close> the
  connection dictionary of \<^verbatim>\<open>self.ble\<close>, and \<open>sync_stats\<close> is \<^const>\<open>None\<close> on the
  PRIMARY. Seconds of \<^verbatim>\<open>time.monotonic()\<close> are real numbers.
\<close>

record app =
  role :: DeviceRole
  ble_name :: string
  ble_link :: BLE
  secondary_connection :: "string option"
  phone_connection :: "string option"
  primary_connection :: "string option"
  therapy_state :: TherapyState
  sync_stats :: "real SyncStats option"
  last_heartbeat_received :: "real option"
  last_received_seq :: int
  missed_commands :: int
  last_sync_command_received :: "real option"
  trace :: "event list"

text \<open>
  The state after \<^verbatim>\<open>__init__\<close>; \<open>name\<close> is
  \<^verbatim>\<open>config.get('ble_name', 'BlueBuzzah')\<close>.
\<close>

definition app_init :: "DeviceRole \<Rightarrow> string \<Rightarrow> app" where
  "app_init r name =
     \<lparr> role = r,
       ble_name = name,
       ble_link = Map.empty,
       secondary_connection = None,
       phone_connection = None,
       primary_connection = None,
       therapy_state = IDLE,
       sync_stats = (if r = SECONDARY then Some (SyncStats_init 200) else None),
       last_heartbeat_received = None,
       last_received_seq = - 1,
       missed_commands = 0,
       last_sync_command_received = None,
       trace = [] \<rparr>"

definition emit :: "event list \<Rightarrow> app \<Rightarrow> app" where
  "emit es s = s\<lparr>trace := trace s @ es\<rparr>"

subsection \<open>Sending a SYNC command (PRIMARY)\<close>

text \<open>
  The message that \<^verbatim>\<open>send_sync_command\<close> builds from a command type and a data
  dictionary. The dictionary is the list of its items in iteration order, with distinct
  string keys.
\<close>

definition sync_message :: "string \<Rightarrow> (string \<times> pyobj) list \<Rightarrow> string" where
  "sync_message command_type data =
     (let data_str =
        (if data \<noteq> []
         then py_join ''|'' (concat (map (\<lambda>(key, value). [key, py_str value]) data))
         else [])
      in ''SYNC:'' @ command_type @ '':'' @ data_str)"

text \<open>
  \<^verbatim>\<open>send_sync_command\<close> hands the message to \<^verbatim>\<open>ble.send\<close> on the PRIMARY when a
  SECONDARY connection is held, and does nothing otherwise; the result is the message
  handed over. When \<^verbatim>\<open>str\<close> raises for a value, the exception is caught and nothing is
  sent.
\<close>

definition send_sync_command :: "app \<Rightarrow> string \<Rightarrow> (string \<times> pyobj) list \<Rightarrow> string option" where
  "send_sync_command s command_type data =
     (if role s = PRIMARY
         \<and> (case secondary_connection s of None \<Rightarrow> False | Some c \<Rightarrow> c \<noteq> [])
         \<and> \<not> list_ex (\<lambda>(key, value). str_raises value) data
      then Some (sync_message command_type data)
      else None)"

subsection \<open>Handling a SYNC command (SECONDARY)\<close>

text \<open>
  The loop over the pipe-separated parts: pairs of key and value, a last odd part ignored.
  A value becomes the integer that \<^verbatim>\<open>int\<close> makes of it, and stays a string when
  \<^verbatim>\<open>int\<close> raises ValueError.
\<close>

definition coerce :: "string \<Rightarrow> pyval" where
  "coerce val = (case py_int val of Some i \<Rightarrow> IntV i | None \<Rightarrow> StrV val)"

fun parse_pairs ::
  "string list \<Rightarrow> (string \<rightharpoonup> pyval) \<times> pyval option \<Rightarrow> (string \<rightharpoonup> pyval) \<times> pyval option" where
  "parse_pairs (key # val # rest) (data, command_timestamp) =
     (let v = coerce val
      in parse_pairs rest
           (data(key \<mapsto> v), if key = ''timestamp'' then Some v else command_timestamp))"
| "parse_pairs [key] acc = acc"
| "parse_pairs [] acc = acc"

text \<open>
  The parsing part of \<^verbatim>\<open>_handle_sync_command\<close>: the command type, the data dictionary
  and the captured time stamp, or \<^const>\<open>None\<close> when the message has fewer than two parts.
\<close>

definition parse_sync_message ::
  "string \<Rightarrow> (string \<times> (string \<rightharpoonup> pyval) \<times> pyval option) option" where
  "parse_sync_message message =
     (let parts = py_split_max CHR '':'' 2 (py_strip message)
      in if length parts < 2 then None
         else
           (let command_type = parts ! 1;
                data_str = (if length parts = 3 then parts ! 2 else '''')
            in case (if data_str \<noteq> []
                     then parse_pairs (py_split CHR ''|'' data_str) (Map.empty, None)
                     else (Map.empty, None)) of
                 (data, command_timestamp) \<Rightarrow> Some (command_type, data, command_timestamp)))"

text \<open>\<^verbatim>\<open>data.get(key, default)\<close>.\<close>

definition dict_get :: "(string \<rightharpoonup> pyval) \<Rightarrow> string \<Rightarrow> pyval \<Rightarrow> pyval" where
  "dict_get data key dflt = (case data key of None \<Rightarrow> dflt | Some v \<Rightarrow> v)"

text \<open>
  What one call of \<^verbatim>\<open>_handle_sync_command\<close> reads from outside: the debug flag, the
  clock values in the order they are read, whether each call on the haptic controller
  raises, and which strings \<^verbatim>\<open>float\<close> accepts. The clock values are readings of a
  64-bit counter, so the lines that print the execution times do not raise.
\<close>

record sync_env =
  debug_enabled :: bool
  t_receive :: int
  t_command :: real
  t_exec_start :: int
  t_exec_complete :: int
  t_sample :: real
  t_heartbeat :: real
  left_activate_raises :: bool
  right_activate_raises :: bool
  left_deactivate_raises :: bool
  right_deactivate_raises :: bool
  float_parses :: "string \<Rightarrow> bool"

text \<open>
  Sequence gap detection, lines 1217 to 1224. Comparing a string with 0 raises TypeError:
  \<^const>\<open>None\<close>. The warning prints the gap, which lies below \<open>seq\<close>.
\<close>

definition track_sequence :: "pyval \<Rightarrow> app \<Rightarrow> app option" where
  "track_sequence seq_value s =
     (case seq_value of
        StrV x \<Rightarrow> None
      | IntV seq \<Rightarrow>
          Some (if seq \<ge> 0
                then (if seq > last_received_seq s + 1 \<and> last_received_seq s \<ge> 0
                      then emit [Log (Sequence_gap (seq - last_received_seq s - 1))]
                             (s\<lparr>missed_commands :=
                                  missed_commands s + (seq - last_received_seq s - 1)\<rparr>)
                      else s)
                     \<lparr>last_received_seq := seq\<rparr>
                else s))"

text \<open>
  Network latency, lines 1227 to 1230. Subtracting a string from an integer raises
  TypeError, and with debug output on the latency is printed, which raises ValueError for
  a latency of more than 4300 digits: \<^const>\<open>None\<close>.
\<close>

definition network_latency_us :: "sync_env \<Rightarrow> pyval option \<Rightarrow> app \<Rightarrow> int option" where
  "network_latency_us env command_timestamp s =
     (case command_timestamp of
        None \<Rightarrow> Some 0
      | Some ts \<Rightarrow>
          if truthy ts \<and> sync_stats s \<noteq> None
          then (case ts of
                  IntV t \<Rightarrow>
                    if debug_enabled env \<and> int_str_raises (t_receive env div 1000 - t)
                    then None
                    else Some (t_receive env div 1000 - t)
                | StrV x \<Rightarrow> None)
          else Some 0)"

text \<open>The two guarded \<^verbatim>\<open>activate\<close> calls, lines 1235 to 1254.\<close>

definition activate_motors :: "sync_env \<Rightarrow> (string \<rightharpoonup> pyval) \<Rightarrow> app \<Rightarrow> app" where
  "activate_motors env data s =
     (let left_finger = dict_get data ''left_finger'' (IntV 0);
          right_finger = dict_get data ''right_finger'' (IntV 0);
          amplitude = dict_get data ''amplitude'' (IntV 100)
      in emit ([Haptic_activate left_finger amplitude]
               @ (if left_activate_raises env then [Log (Failed_to_activate left_finger)] else [])
               @ [Haptic_activate right_finger amplitude]
               @ (if right_activate_raises env then [Log (Failed_to_activate right_finger)] else []))
           s)"

text \<open>The sample for the statistics, lines 1257 to 1266.\<close>

definition record_sample :: "sync_env \<Rightarrow> int \<Rightarrow> app \<Rightarrow> app" where
  "record_sample env latency s =
     (case sync_stats s of
        None \<Rightarrow> s
      | Some stats \<Rightarrow>
          s\<lparr>sync_stats :=
              Some (add_sample (t_sample env) latency
                      ((t_exec_complete env - t_exec_start env) div 1000)
                      ((t_exec_complete env - t_receive env) div 1000) stats)\<rparr>)"

text \<open>
  The branch for EXECUTE\_BUZZ. An exception leaves through the handler at the end of
  \<^verbatim>\<open>_handle_sync_command\<close>, which prints an error; what was changed before stays.
\<close>

definition execute_buzz :: "sync_env \<Rightarrow> (string \<rightharpoonup> pyval) \<Rightarrow> pyval option \<Rightarrow> app \<Rightarrow> app" where
  "execute_buzz env data command_timestamp s =
     (case track_sequence (dict_get data ''seq'' (IntV (- 1))) s of
        None \<Rightarrow> emit [Log Failed_to_handle_sync] s
      | Some s1 \<Rightarrow>
          (case network_latency_us env command_timestamp s1 of
             None \<Rightarrow> emit [Log Failed_to_handle_sync] s1
           | Some latency \<Rightarrow> record_sample env latency (activate_motors env data s1)))"

text \<open>The branch for DEACTIVATE: both calls stand in one \<^verbatim>\<open>try\<close>.\<close>

definition deactivate_motors :: "sync_env \<Rightarrow> (string \<rightharpoonup> pyval) \<Rightarrow> app \<Rightarrow> app" where
  "deactivate_motors env data s =
     (let left_finger = dict_get data ''left_finger'' (IntV 0);
          right_finger = dict_get data ''right_finger'' (IntV 0)
      in if left_deactivate_raises env
         then emit [Haptic_deactivate left_finger, Log Failed_to_deactivate] s
         else emit ([Haptic_deactivate left_finger, Haptic_deactivate right_finger]
                    @ (if right_deactivate_raises env then [Log Failed_to_deactivate] else []))
                s)"

text \<open>A call of \<^verbatim>\<open>state_machine.transition\<close>.\<close>

definition do_transition :: "StateTrigger \<Rightarrow> app \<Rightarrow> app" where
  "do_transition t s =
     emit [State_transition t] (s\<lparr>therapy_state := transition (therapy_state s) t\<rparr>)"

text \<open>
  The branch for START\_SESSION. \<^verbatim>\<open>float(jitter_int)\<close> raises ValueError for a string
  that is not a number and OverflowError for an integer beyond the range of a double.
\<close>

definition start_session :: "sync_env \<Rightarrow> (string \<rightharpoonup> pyval) \<Rightarrow> app \<Rightarrow> app" where
  "start_session env data s =
     (case dict_get data ''jitter_percent'' (IntV 235) of
        StrV x \<Rightarrow>
          if float_parses env x
          then emit [Led (set_therapy_state RUNNING)] (do_transition START_SESSION s)
          else emit [Log Failed_to_handle_sync] s
      | IntV j \<Rightarrow>
          if \<bar>j\<bar> \<ge> FLOAT_OVERFLOW then emit [Log Failed_to_handle_sync] s
          else emit [Led (set_therapy_state RUNNING)] (do_transition START_SESSION s))"

definition sync_commands :: "string set" where
  "sync_commands =
     {''EXECUTE_BUZZ'', ''DEACTIVATE'', ''START_SESSION'', ''PAUSE_SESSION'',
      ''RESUME_SESSION'', ''STOP_SESSION'', ''HEARTBEAT''}"

text \<open>
  \<^verbatim>\<open>_handle_sync_command\<close>. It runs in the main loop, after the initialisation has
  created the haptic controller and the therapy engine, so \<^verbatim>\<open>if self.therapy_engine\<close>
  holds.
\<close>

definition handle_sync_command :: "sync_env \<Rightarrow> string \<Rightarrow> app \<Rightarrow> app" where
  "handle_sync_command env message s =
     (case parse_sync_message message of
        None \<Rightarrow> emit [Log Invalid_sync_format] s
      | Some (command_type, data, command_timestamp) \<Rightarrow>
          (let s0 = s\<lparr>last_sync_command_received := Some (t_command env)\<rparr>
           in if command_type = ''EXECUTE_BUZZ'' then execute_buzz env data command_timestamp s0
              else if command_type = ''DEACTIVATE'' then deactivate_motors env data s0
              else if command_type = ''START_SESSION'' then start_session env data s0
              else if command_type = ''PAUSE_SESSION''
                then do_transition PAUSE_SESSION (emit [Engine_pause] s0)
              else if command_type = ''RESUME_SESSION''
                then do_transition RESUME_SESSION (emit [Engine_resume] s0)
              else if command_type = ''STOP_SESSION''
                then do_transition STOPPED (do_transition STOP_SESSION (emit [Engine_stop] s0))
              else if command_type = ''HEARTBEAT''
                then s0\<lparr>last_heartbeat_received := Some (t_heartbeat env)\<rparr>
              else emit (if debug_enabled env then [Log (Unknown_sync_command command_type)]
                         else []) s0))"

text \<open>The gap warnings printed so far, and the calls made on the haptic controller.\<close>

definition gap_warnings :: "app \<Rightarrow> int list" where
  "gap_warnings s = concat (map (\<lambda>e. case e of Log (Sequence_gap g) \<Rightarrow> [g] | _ \<Rightarrow> []) (trace s))"

fun is_haptic_call :: "event \<Rightarrow> bool" where
  "is_haptic_call (Haptic_activate f a) = True"
| "is_haptic_call (Haptic_deactivate f) = True"
| "is_haptic_call Haptic_emergency_stop = True"
| "is_haptic_call e = False"

text \<open>
  The decoded side of the round trip in the words of the specification: a value whose
  string parses as an integer becomes that integer, any other value stays as it is. The
  values of the parser are values of Python by \<open>sent\<close>.
\<close>

definition coerced :: "pyobj \<Rightarrow> pyobj" where
  "coerced v = (case py_int (py_str v) of Some i \<Rightarrow> IntO i | None \<Rightarrow> v)"

fun sent :: "pyval \<Rightarrow> pyobj" where
  "sent (IntV i) = IntO i"
| "sent (StrV s) = StrO s"

fun int_or_str :: "pyobj \<Rightarrow> bool" where
  "int_or_str (IntO i) = True"
| "int_or_str (StrO s) = True"
| "int_or_str v = False"

text \<open>
  The strings the round trip is claimed for contain none of the pipe, the colon and the
  EOT character; a string ends in white space when \<^verbatim>\<open>strip\<close> would shorten it at the
  end.
\<close>

definition wire_safe :: "string \<Rightarrow> bool" where
  "wire_safe s = (CHR ''|'' \<notin> set s \<and> CHR '':'' \<notin> set s \<and> CHR 0x04 \<notin> set s)"

definition ends_in_space :: "string \<Rightarrow> bool" where
  "ends_in_space s = (s \<noteq> [] \<and> py_isspace (last s))"

subsection \<open>Heartbeat timeout and reconnection (SECONDARY)\<close>

text \<open>
  What a call of \<^verbatim>\<open>ble.scan_and_connect\<close> comes to: it connects and returns the
  connection id, it returns \<^verbatim>\<open>None\<close>, or it raises. When it connects it stores a new
  \<^verbatim>\<open>BLEConnection\<close> under the connection id. The result \<^const>\<open>None\<close> of the model is
  the exception.
\<close>

datatype scan_result = Scan_connected | Scan_nothing | Scan_raised

definition scan_and_connect ::
  "scan_result \<Rightarrow> string \<Rightarrow> BLE \<Rightarrow> (string option \<times> BLE) option" where
  "scan_and_connect r conn_id b =
     (case r of
        Scan_connected \<Rightarrow> Some (Some conn_id, b(conn_id \<mapsto> BLEConnection_init))
      | Scan_nothing \<Rightarrow> Some (None, b)
      | Scan_raised \<Rightarrow> None)"

definition MAX_ATTEMPTS :: nat where
  "MAX_ATTEMPTS = 3"

definition DELAY_SEC :: real where
  "DELAY_SEC = 2"

definition HEARTBEAT_TIMEOUT_SEC :: real where
  "HEARTBEAT_TIMEOUT_SEC = 6"

text \<open>A call of \<^verbatim>\<open>state_machine.force_state\<close>.\<close>

definition force_state :: "TherapyState \<Rightarrow> app \<Rightarrow> app" where
  "force_state target s = emit [Force_state target] (s\<lparr>therapy_state := target\<rparr>)"

text \<open>
  The loop \<^verbatim>\<open>for attempt in range(MAX_ATTEMPTS)\<close> of
  \<^verbatim>\<open>_attempt_reconnect_to_primary\<close>, with the statements behind the loop in the
  equation for no attempt left. \<open>scan\<close> says what the radio does in each attempt.
\<close>

fun reconnect_attempts :: "(nat \<Rightarrow> scan_result) \<Rightarrow> nat \<Rightarrow> nat \<Rightarrow> app \<Rightarrow> bool \<times> app" where
  "reconnect_attempts scan attempt 0 s =
     (False, emit [Led indicate_failure] (force_state IDLE s))"
| "reconnect_attempts scan attempt (Suc remaining) s =
     (let s1 = emit [Led indicate_ble_init, Scan_and_connect (ble_name s) 10 ''primary''] s
      in case scan_and_connect (scan attempt) ''primary'' (ble_link s1) of
           None \<Rightarrow>
             reconnect_attempts scan (attempt + 1) remaining
               (emit [Log (Reconnect_attempt_failed (attempt + 1)), Sleep DELAY_SEC] s1)
         | Some (connection, b) \<Rightarrow>
             if (case connection of None \<Rightarrow> False | Some c \<Rightarrow> c \<noteq> [])
             then (True,
                   emit [Led indicate_ready]
                     (force_state READY (s1\<lparr>ble_link := b, primary_connection := connection\<rparr>)))
             else reconnect_attempts scan (attempt + 1) remaining
                    (emit [Sleep DELAY_SEC] (s1\<lparr>ble_link := b\<rparr>)))"

definition attempt_reconnect_to_primary :: "(nat \<Rightarrow> scan_result) \<Rightarrow> app \<Rightarrow> bool \<times> app" where
  "attempt_reconnect_to_primary scan s = reconnect_attempts scan 0 MAX_ATTEMPTS s"

text \<open>
  \<^verbatim>\<open>_handle_heartbeat_timeout\<close>. The haptic controller exists after initialisation;
  \<open>stop_raises\<close> says that its \<^verbatim>\<open>emergency_stop\<close> raises.
\<close>

definition handle_heartbeat_timeout :: "bool \<Rightarrow> (nat \<Rightarrow> scan_result) \<Rightarrow> app \<Rightarrow> app" where
  "handle_heartbeat_timeout stop_raises scan s =
     (let s1 = emit ([Haptic_emergency_stop]
                     @ (if stop_raises then [Log Failed_to_stop_motors] else [])) s;
          s2 = force_state CONNECTION_LOST s1;
          s3 = emit [Led (set_therapy_state CONNECTION_LOST)] s2;
          s4 = s3\<lparr>last_heartbeat_received := None\<rparr>
      in snd (attempt_reconnect_to_primary scan s4))"

text \<open>The watchdog in \<^verbatim>\<open>_run_secondary_loop\<close>; \<open>now\<close> is \<^verbatim>\<open>time.monotonic()\<close>.\<close>

definition check_heartbeat :: "real \<Rightarrow> bool \<Rightarrow> (nat \<Rightarrow> scan_result) \<Rightarrow> app \<Rightarrow> app" where
  "check_heartbeat now stop_raises scan s =
     (case last_heartbeat_received s of
        None \<Rightarrow> s
      | Some t \<Rightarrow>
          if now - t > HEARTBEAT_TIMEOUT_SEC then handle_heartbeat_timeout stop_raises scan s
          else s)"

text \<open>
  Reading a trace: the events of a recovery that the order of the steps is about, which
  are the emergency stop, the forced states, the scans and the sleeps.
\<close>

fun is_scan :: "event \<Rightarrow> bool" where
  "is_scan (Scan_and_connect target timeout conn_id) = True"
| "is_scan e = False"

fun is_force_state :: "event \<Rightarrow> bool" where
  "is_force_state (Force_state target) = True"
| "is_force_state e = False"

fun is_sleep :: "event \<Rightarrow> bool" where
  "is_sleep (Sleep d) = True"
| "is_sleep e = False"

definition recovery_event :: "event \<Rightarrow> bool" where
  "recovery_event e =
     (e = Haptic_emergency_stop \<or> is_force_state e \<or> is_scan e \<or> is_sleep e)"

subsection \<open>Boot sequence (PRIMARY)\<close>

text \<open>
  \<^verbatim>\<open>ble.wait_for_connection\<close>: a connection id that is already held is returned at once;
  otherwise the call returns the id and stores a new \<^verbatim>\<open>BLEConnection\<close> when a new radio
  connection with a UART service shows up before the timeout (\<open>arrives\<close>), and returns
  \<^verbatim>\<open>None\<close> when it does not. The timeout that the boot loop passes,
  \<^verbatim>\<open>min(0.02, remaining_time)\<close>, is taken to be different from zero, so that the call
  returns (\<^verbatim>\<open>if timeout and ...\<close> reads a zero as no timeout).
\<close>

definition wait_for_connection :: "string \<Rightarrow> bool \<Rightarrow> BLE \<Rightarrow> string option \<times> BLE" where
  "wait_for_connection conn_id arrives b =
     (if conn_id \<in> dom b then (Some conn_id, b)
      else if arrives then (Some conn_id, b(conn_id \<mapsto> BLEConnection_init))
      else (None, b))"

text \<open>
  One pass of the polling loop reads two things from the radio: whether the wait for the
  SECONDARY and whether the wait for the phone, if made, see a new connection.
\<close>

record boot_poll =
  secondary_arrives :: bool
  phone_arrives :: bool

definition check_secondary :: "boot_poll \<Rightarrow> app \<Rightarrow> bool \<times> app" where
  "check_secondary p s =
     (case wait_for_connection ''secondary'' (secondary_arrives p) (ble_link s) of
        (conn, b) \<Rightarrow>
          if (case conn of None \<Rightarrow> False | Some c \<Rightarrow> c \<noteq> [])
          then (True,
                emit [Led indicate_connection_success, Sleep (1 / 2),
                      Led indicate_waiting_for_phone]
                  (s\<lparr>ble_link := b, secondary_connection := conn\<rparr>))
          else (False, s\<lparr>ble_link := b\<rparr>))"

definition check_phone :: "boot_poll \<Rightarrow> app \<Rightarrow> bool \<times> app" where
  "check_phone p s =
     (case wait_for_connection ''phone'' (phone_arrives p) (ble_link s) of
        (conn, b) \<Rightarrow>
          if (case conn of None \<Rightarrow> False | Some c \<Rightarrow> c \<noteq> [])
          then (True, s\<lparr>ble_link := b, phone_connection := conn\<rparr>)
          else (False, s\<lparr>ble_link := b\<rparr>))"

text \<open>
  The loop \<^verbatim>\<open>while (time.monotonic() - start_time) < startup_window_sec\<close>. The list holds
  one entry for each pass that begins inside the window; the loop also ends, by
  \<^verbatim>\<open>break\<close>, when both connections are held.
\<close>

fun primary_boot_loop :: "boot_poll list \<Rightarrow> bool \<Rightarrow> bool \<Rightarrow> app \<Rightarrow> bool \<times> bool \<times> app" where
  "primary_boot_loop [] secondary_connected phone_connected s =
     (secondary_connected, phone_connected, s)"
| "primary_boot_loop (p # polls) secondary_connected phone_connected s =
     (case (if \<not> secondary_connected then check_secondary p (emit [Led update_animation] s)
            else (secondary_connected, emit [Led update_animation] s)) of
        (sc, s2) \<Rightarrow>
          (case (if \<not> phone_connected \<and> sc then check_phone p s2 else (phone_connected, s2)) of
             (pc, s3) \<Rightarrow>
               if sc \<and> pc then (sc, pc, s3)
               else primary_boot_loop polls sc pc (emit [Sleep (1 / 100)] s3)))"

text \<open>
  \<^verbatim>\<open>_primary_boot_sequence\<close>; \<open>advertise_raises\<close> says that \<^verbatim>\<open>ble.advertise\<close> raises.
\<close>

definition primary_boot_sequence :: "bool \<Rightarrow> boot_poll list \<Rightarrow> app \<Rightarrow> BootResult \<times> app" where
  "primary_boot_sequence advertise_raises polls s =
     (let s0 = emit [Led indicate_ble_init, Advertise (ble_name s)] s
      in if advertise_raises
         then (FAILED, emit [Log Failed_to_advertise, Led indicate_failure] s0)
         else (case primary_boot_loop polls False False s0 of
                 (secondary_connected, phone_connected, s1) \<Rightarrow>
                   if \<not> secondary_connected then (FAILED, emit [Led indicate_failure] s1)
                   else (if phone_connected then SUCCESS_WITH_PHONE else SUCCESS_NO_PHONE,
                         emit [Led indicate_ready] s1)))"

subsection \<open>Concrete states, surroundings and messages\<close>

text \<open>A PRIMARY that holds its SECONDARY connection, and a SECONDARY after start-up.\<close>

definition primary_linked :: app where
  "primary_linked = (app_init PRIMARY ''BlueBuzzah'')\<lparr>secondary_connection := Some ''secondary''\<rparr>"

definition secondary_idle :: app where
  "secondary_idle = app_init SECONDARY ''BlueBuzzah''"

text \<open>Quiet surroundings: debug output off and no call on the haptic controller raises.\<close>

definition quiet :: sync_env where
  "quiet =
     \<lparr> debug_enabled = False,
       t_receive = 1250000,
       t_command = 1,
       t_exec_start = 1300000,
       t_exec_complete = 1900000,
       t_sample = 2,
       t_heartbeat = 1,
       left_activate_raises = False,
       right_activate_raises = False,
       left_deactivate_raises = False,
       right_deactivate_raises = False,
       float_parses = (\<lambda>x. False) \<rparr>"

definition buzz_seq_0 :: string where
  "buzz_seq_0 = ''SYNC:EXECUTE_BUZZ:left_finger|2|right_finger|2|amplitude|75|seq|0|timestamp|200''"

definition buzz_seq_3 :: string where
  "buzz_seq_3 = ''SYNC:EXECUTE_BUZZ:left_finger|1|right_finger|1|amplitude|75|seq|3|timestamp|900''"

text \<open>
  The items of a data dictionary: integers, a string, a string of digits and a float.
\<close>

definition buzz_items :: "(string \<times> pyobj) list" where
  "buzz_items =
     [(''left_finger'', IntO 2), (''amplitude'', IntO 75), (''pattern'', StrO ''rndp''),
      (''seq'', StrO ''12''), (''jitter'', FloatO ''23.5'')]"

text \<open>
  A SECONDARY in a running session whose last heartbeat came at second 0; a radio that
  finds nothing in the first attempt and connects in the second; a radio that never finds
  the PRIMARY.
\<close>

definition secondary_running :: app where
  "secondary_running =
     (app_init SECONDARY ''BlueBuzzah'')
       \<lparr>therapy_state := RUNNING, last_heartbeat_received := Some 0\<rparr>"

definition second_attempt_connects :: "nat \<Rightarrow> scan_result" where
  "second_attempt_connects attempt = (if attempt = 1 then Scan_connected else Scan_nothing)"

definition never_found :: "nat \<Rightarrow> scan_result" where
  "never_found attempt = Scan_nothing"

text \<open>Three passes of the boot loop: the SECONDARY arrives in the second, no phone.\<close>

definition secondary_in_second_pass :: "boot_poll list" where
  "secondary_in_second_pass =
     [\<lparr>secondary_arrives = False, phone_arrives = False\<rparr>,
      \<lparr>secondary_arrives = True, phone_arrives = False\<rparr>,
      \<lparr>secondary_arrives = False, phone_arrives = False\<rparr>]"

chapter \<open>Properties\<close>

section \<open>EOT framing\<close>

subsection \<open>The byte loop\<close>

lemma process_bytes_append:
  "process_bytes (xs @ ys) buf len pend =
     (case process_bytes xs buf len pend of
        (buf', None, pend') \<Rightarrow> (buf', None, pend')
      | (buf', Some len', pend') \<Rightarrow> process_bytes ys buf' len' pend')"
  by (induction xs buf len pend rule: process_bytes.induct) (auto split: option.splits)

lemma process_bytes_pending:
  "process_bytes xs buf len (pre @ pend) =
     (case process_bytes xs buf len pend of (buf', r, new) \<Rightarrow> (buf', r, pre @ new))"
  by (induction xs buf len pend rule: process_bytes.induct) (auto split: option.splits)

lemma process_bytes_length:
  "process_bytes xs buf len pend = (buf', r, pend') \<Longrightarrow> length buf' = length buf"
  by (induction xs buf len pend rule: process_bytes.induct) (auto split: option.splits if_splits)

lemma process_bytes_bound:
  "process_bytes xs buf len pend = (buf', Some len', pend') \<Longrightarrow> len \<le> length buf \<Longrightarrow> len' \<le> length buf"
  by (induction xs buf len pend rule: process_bytes.induct) (auto split: option.splits if_splits)

text \<open>Bytes other than EOT that fit are stored behind the bytes already there.\<close>

lemma accumulate:
  "EOT \<notin> set p \<Longrightarrow> len + length p \<le> length buf \<Longrightarrow>
   process_bytes (p @ rest) buf len pend =
   process_bytes rest (take len buf @ p @ drop (len + length p) buf) (len + length p) pend"
proof (induction p arbitrary: buf len)
  case Nil
  then show ?case by simp
next
  case (Cons b p)
  have 1: "len < length buf" using Cons.prems by simp
  have 2: "take (Suc len) (buf[len := b]) = take len buf @ [b]"
    using 1 by (simp add: take_Suc_conv_app_nth)
  have 3: "drop (Suc len + length p) (buf[len := b]) = drop (Suc len + length p) buf"
    by simp
  have 0: "b \<noteq> EOT" using Cons.prems by auto
  have "process_bytes ((b # p) @ rest) buf len pend = process_bytes (p @ rest) (buf[len := b]) (Suc len) pend"
    using 0 1 by simp
  also have "\<dots> = process_bytes rest (take (Suc len) (buf[len := b]) @ p @ drop (Suc len + length p) (buf[len := b])) (Suc len + length p) pend"
    using Cons.prems by (intro Cons.IH) auto
  finally show ?case using 2 3 by simp
qed

lemma one_frame:
  assumes "p \<noteq> []" "EOT \<notin> set p" "length p \<le> length buf" "utf8_decode p = Some m"
  shows "process_bytes (p @ EOT # rest) buf 0 pend =
         process_bytes rest (p @ drop (length p) buf) 0 (pend @ [m])"
proof -
  have "process_bytes (p @ EOT # rest) buf 0 pend =
        process_bytes (EOT # rest) (p @ drop (length p) buf) (length p) pend"
    using accumulate [of p 0 buf "EOT # rest" pend] assms by simp
  then show ?thesis using assms by simp
qed

lemma frames:
  assumes "\<forall>p \<in> set payloads. p \<noteq> [] \<and> EOT \<notin> set p \<and> length p \<le> length buf"
      and "map utf8_decode payloads = map Some msgs"
  shows "\<exists>buf'. process_bytes (framed payloads @ rest) buf 0 pend = process_bytes rest buf' 0 (pend @ msgs) \<and> length buf' = length buf"
  using assms
proof (induction payloads arbitrary: buf pend msgs)
  case Nil
  then show ?case by (auto simp: framed_def intro: exI [of _ buf])
next
  case (Cons p ps)
  from Cons.prems(2) obtain m ms where msgs: "msgs = m # ms" "utf8_decode p = Some m" "map utf8_decode ps = map Some ms"
    by (cases msgs) auto
  let ?buf1 = "p @ drop (length p) buf"
  have len1: "length ?buf1 = length buf" using Cons.prems(1) by simp
  have "process_bytes (framed (p # ps) @ rest) buf 0 pend = process_bytes (p @ EOT # (framed ps @ rest)) buf 0 pend"
    by (simp add: framed_def)
  also have "\<dots> = process_bytes (framed ps @ rest) ?buf1 0 (pend @ [m])"
    using Cons.prems(1) msgs(2) by (intro one_frame) auto
  finally have a: "process_bytes (framed (p # ps) @ rest) buf 0 pend = process_bytes (framed ps @ rest) ?buf1 0 (pend @ [m])" .
  have "\<exists>buf'. process_bytes (framed ps @ rest) ?buf1 0 (pend @ [m]) = process_bytes rest buf' 0 ((pend @ [m]) @ ms) \<and> length buf' = length ?buf1"
    using Cons.prems(1) msgs(3) len1 by (intro Cons.IH) auto
  then show ?case using a msgs(1) len1 by auto
qed

subsection \<open>Several messages in one read\<close>

lemma receive_n_pops:
  assumes "ble cid = Some conn" "connected conn" "pending_messages conn = ms @ queue"
  shows "receive_n (length ms) ble cid timed =
           (map Message ms, if ms = [] then ble else ble(cid \<mapsto> conn\<lparr>pending_messages := queue\<rparr>))"
  using assms
proof (induction ms arbitrary: ble conn)
  case Nil
  then show ?case by simp
next
  case (Cons m ms)
  let ?c = "conn\<lparr>pending_messages := ms @ queue\<rparr>"
  have 1: "receive ble cid timed = (Message m, ble(cid \<mapsto> ?c))"
    using Cons.prems by (simp add: receive_def)
  have 2: "receive_n (length ms) (ble(cid \<mapsto> ?c)) cid timed =
       (map Message ms, if ms = [] then ble(cid \<mapsto> ?c) else (ble(cid \<mapsto> ?c))(cid \<mapsto> ?c\<lparr>pending_messages := queue\<rparr>))"
    using Cons.prems by (intro Cons.IH) auto
  show ?case using 1 2 by (cases "ms = []") auto
qed

lemma receive_n_snoc:
  "receive_n (Suc n) ble cid timed =
     (case receive_n n ble cid timed of
        (rs, ble') \<Rightarrow> (case receive ble' cid timed of (r, ble'') \<Rightarrow> (rs @ [r], ble'')))"
proof (induction n arbitrary: ble)
  case 0
  show ?case by (simp split: prod.splits)
next
  case (Suc n)
  obtain r b1 where 1: "receive ble cid timed = (r, b1)" by force
  obtain rs b2 where 2: "receive_n n b1 cid timed = (rs, b2)" by force
  obtain r' b3 where 3: "receive b2 cid timed = (r', b3)" by force
  have "receive_n (Suc n) b1 cid timed = (rs @ [r'], b3)"
    using Suc.IH [of b1] 2 3 by (simp del: receive_n.simps)
  then have "receive_n (Suc (Suc n)) ble cid timed = (r # rs @ [r'], b3)"
    using 1 by (simp del: receive_n.simps add: receive_n.simps(2) [of "Suc n"])
  moreover have "receive_n (Suc n) ble cid timed = (r # rs, b2)" using 1 2 by simp
  ultimately show ?case using 3 by (simp del: receive_n.simps)
qed

lemma framed_nonempty: "payloads \<noteq> [] \<Longrightarrow> framed payloads \<noteq> []"
  by (cases payloads) (auto simp: framed_def)

lemma first_read:
  assumes "ble cid = Some conn" "connected conn"
      and "pending_messages conn = []" "msg_len conn = 0" "length (msg_buffer conn) = 512"
      and "uart conn = framed payloads # later"
      and "\<forall>p \<in> set payloads. p \<noteq> [] \<and> EOT \<notin> set p \<and> length p \<le> 512"
      and "map utf8_decode payloads = map Some (m # ms)"
  shows "\<exists>buf'. receive ble cid timed =
           (Message m, ble(cid \<mapsto> conn\<lparr>uart := later, msg_buffer := buf', msg_len := 0, pending_messages := ms\<rparr>))"
proof -
  have ne: "framed payloads \<noteq> []" using assms(8) by (intro framed_nonempty) auto
  obtain buf' where "process_bytes (framed payloads @ []) (msg_buffer conn) 0 [] = process_bytes [] buf' 0 ([] @ (m # ms))"
    using frames [of payloads "msg_buffer conn" "m # ms" "[]" "[]"] assms(5,7,8) by auto
  then have "process_bytes (framed payloads) (msg_buffer conn) 0 [] = (buf', Some 0, m # ms)" by simp
  then have "receive_loop timed (uart conn) conn =
      (Message m, conn\<lparr>uart := later, msg_buffer := buf', msg_len := 0, pending_messages := ms\<rparr>)"
    using assms(3,4,6) ne by simp
  then show ?thesis using assms(1,2,3) by (auto simp: receive_def)
qed

text \<open>
  A connection whose queue and accumulator are empty reads one block that holds \<open>N\<close>
  messages, each a non-empty payload without EOT that fits the 512-byte buffer and decodes
  as UTF-8, each followed by EOT. Then \<open>N\<close> successive calls of \<^verbatim>\<open>receive\<close> return
  the \<open>N\<close> decoded payloads, one per call and in the order sent, whatever the timeout
  argument; and when nothing else arrives, the next call (with a timeout) returns
  \<^verbatim>\<open>None\<close>.
\<close>

lemma frames_from_empty_accumulator:
  assumes "ble conn_id = Some conn" "connected conn"
      and "pending_messages conn = []" "msg_len conn = 0" "length (msg_buffer conn) = 512"
      and "uart conn = framed payloads # later"
      and "\<forall>p \<in> set payloads. p \<noteq> [] \<and> EOT \<notin> set p \<and> length p \<le> 512"
      and "map utf8_decode payloads = map Some messages"
  shows "fst (receive_n (length payloads) ble conn_id timed) = map Message messages
       \<and> (later = [] \<longrightarrow>
            fst (receive_n (length payloads + 1) ble conn_id True) = map Message messages @ [Nothing])"
proof (cases messages)
  case Nil
  then have p: "payloads = []" using assms(8) by simp
  have "receive ble conn_id True = (Nothing, ble(conn_id \<mapsto> conn\<lparr>uart := []\<rparr>))" if "later = []"
    using that assms(1,2,3,6) p by (simp add: receive_def framed_def)
  then show ?thesis using Nil p by simp
next
  case (Cons m ms)
  have len: "length payloads = Suc (length ms)"
    using assms(8) Cons by (metis length_map length_Cons)
  have main: "\<exists>c'. receive_n (length payloads) ble conn_id t = (map Message messages, ble(conn_id \<mapsto> c'))
              \<and> connected c' \<and> pending_messages c' = [] \<and> uart c' = later" for t
  proof -
    obtain buf' where 1: "receive ble conn_id t =
           (Message m, ble(conn_id \<mapsto> conn\<lparr>uart := later, msg_buffer := buf', msg_len := 0, pending_messages := ms\<rparr>))"
      using first_read [of ble conn_id conn payloads later m ms t] assms Cons by auto
    let ?c = "conn\<lparr>uart := later, msg_buffer := buf', msg_len := 0, pending_messages := ms\<rparr>"
    have 2: "receive_n (length ms) (ble(conn_id \<mapsto> ?c)) conn_id t =
           (map Message ms, if ms = [] then ble(conn_id \<mapsto> ?c) else (ble(conn_id \<mapsto> ?c))(conn_id \<mapsto> ?c\<lparr>pending_messages := []\<rparr>))"
      using assms(2) by (intro receive_n_pops) auto
    show ?thesis
    proof (cases "ms = []")
      case True
      then show ?thesis using 1 2 len Cons assms(2) by (intro exI [of _ ?c]) simp
    next
      case False
      then show ?thesis using 1 2 len Cons assms(2)
        by (intro exI [of _ "?c\<lparr>pending_messages := []\<rparr>"]) simp
    qed
  qed
  have a: "fst (receive_n (length payloads) ble conn_id timed) = map Message messages"
    using main [of timed] by auto
  have b: "fst (receive_n (length payloads + 1) ble conn_id True) = map Message messages @ [Nothing]"
    if "later = []"
  proof -
    obtain c' where c: "receive_n (length payloads) ble conn_id True = (map Message messages, ble(conn_id \<mapsto> c'))"
      "connected c'" "pending_messages c' = []" "uart c' = later"
      using main [of True] by auto
    have "receive (ble(conn_id \<mapsto> c')) conn_id True = (Nothing, (ble(conn_id \<mapsto> c'))(conn_id \<mapsto> c'\<lparr>uart := []\<rparr>))"
      using c(2,3,4) that by (simp add: receive_def)
    then show ?thesis using c(1) by (simp add: receive_n_snoc del: receive_n.simps)
  qed
  show ?thesis using a b by simp
qed

lemma two_messages_in_one_read:
  "two_messages ''primary'' =
     Some (BLEConnection_init\<lparr>uart := [framed [[0x41, 0x42], [0x43]]]\<rparr>)
 \<and> map utf8_decode [[0x41, 0x42], [0x43]] = map Some [[0x41, 0x42], [0x43]]
 \<and> fst (receive_n (length [[0x41, 0x42], [0x43 :: byte]]) two_messages ''primary'' True) =
       map Message [[0x41, 0x42], [0x43]]
 \<and> fst (receive_n (length [[0x41, 0x42], [0x43 :: byte]] + 1) two_messages ''primary'' True) =
       map Message [[0x41, 0x42], [0x43]] @ [Nothing]"
proof -
  let ?conn = "BLEConnection_init\<lparr>uart := [framed [[0x41, 0x42], [0x43]]]\<rparr>"
  have 1: "two_messages ''primary'' = Some ?conn" by (simp add: two_messages_def)
  have 2: "connected ?conn" "pending_messages ?conn = []" "msg_len ?conn = 0"
      "length (msg_buffer ?conn) = 512"
    by (simp_all add: BLEConnection_init_def)
  have 3: "uart ?conn = framed [[0x41, 0x42], [0x43]] # []" by simp
  have 4: "\<forall>p \<in> set [[0x41, 0x42], [0x43 :: byte]].
             p \<noteq> [] \<and> EOT \<notin> set p \<and> length p \<le> 512"
    by (simp add: EOT_def)
  have 5: "map utf8_decode [[0x41, 0x42], [0x43]] = map Some [[0x41, 0x42], [0x43]]" by simp
  show ?thesis
    using frames_from_empty_accumulator [of two_messages "''primary''" ?conn
        "[[0x41, 0x42], [0x43]]" "[]" "[[0x41, 0x42], [0x43]]" True, OF 1 2 3 4 5] 1 5
    by blast
qed

subsection \<open>The accumulator after a decoding error\<close>

lemma reachable_three_reads:
  "reachable [cid \<mapsto> BLEConnection_init\<lparr>uart := [c1, c2, c3]\<rparr>]"
proof -
  let ?i = BLEConnection_init
  have 0: "reachable (Map.empty(cid \<mapsto> ?i))" by (rule connect [OF start])
  have "reachable ((Map.empty(cid \<mapsto> ?i))(cid \<mapsto> ?i\<lparr>uart := uart ?i @ [c1]\<rparr>))"
    by (rule deliver [OF 0]) simp
  then have 1: "reachable [cid \<mapsto> ?i\<lparr>uart := [c1]\<rparr>]"
    by (simp add: BLEConnection_init_def)
  have "reachable ([cid \<mapsto> ?i\<lparr>uart := [c1]\<rparr>]
      (cid \<mapsto> ?i\<lparr>uart := [c1]\<rparr>\<lparr>uart := uart (?i\<lparr>uart := [c1]\<rparr>) @ [c2]\<rparr>))"
    by (rule deliver [OF 1]) simp
  then have 2: "reachable [cid \<mapsto> ?i\<lparr>uart := [c1, c2]\<rparr>]" by simp
  have "reachable ([cid \<mapsto> ?i\<lparr>uart := [c1, c2]\<rparr>]
      (cid \<mapsto> ?i\<lparr>uart := [c1, c2]\<rparr>\<lparr>uart := uart (?i\<lparr>uart := [c1, c2]\<rparr>) @ [c3]\<rparr>))"
    by (rule deliver [OF 2]) simp
  then show ?thesis by simp
qed

text \<open>
  Claim C1 fails in the code. The accumulator is not always empty at the start of a
  message: when a frame does not decode as UTF-8, the exception leaves the loop before
  \<^verbatim>\<open>conn._msg_len = msg_len\<close> is reached, so the stored length keeps the value it had
  before that read, although the EOT of the frame has been seen. Below, the bytes "AB"
  arrive, then a frame end with an invalid byte (the call returns \<^verbatim>\<open>None\<close>, the stored
  length stays 2), and then one read that holds the single well-formed message "C". The
  next call returns "ABC", not "C".
\<close>

theorem stale_length_after_decode_error:
  "reachable bad_frame_then_c
 \<and> utf8_decode [0x43] = Some [0x43]
 \<and> (case snd (receive bad_frame_then_c ''primary'' True) ''primary'' of
       None \<Rightarrow> False
     | Some conn \<Rightarrow>
         uart conn = [framed [[0x43]]] \<and> pending_messages conn = [] \<and> msg_len conn = 2)
 \<and> fst (receive_n 3 bad_frame_then_c ''primary'' True) =
      [Nothing, Message [0x41, 0x42, 0x43], Nothing]"
proof -
  have r: "reachable bad_frame_then_c"
    unfolding bad_frame_then_c_def by (rule reachable_three_reads)
  have d: "utf8_decode [0x43] = Some [0x43]" by simp
  have 1: "(case snd (receive bad_frame_then_c ''primary'' True) ''primary'' of
       None \<Rightarrow> False
     | Some conn \<Rightarrow>
         uart conn = [framed [[0x43]]] \<and> pending_messages conn = [] \<and> msg_len conn = 2)"
    by code_simp
  have 2: "fst (receive_n 3 bad_frame_then_c ''primary'' True) =
      [Nothing, Message [0x41, 0x42, 0x43], Nothing]"
    by code_simp
  show ?thesis by (intro conjI r d 1 2)
qed

subsection \<open>A stream of bytes in any number of reads\<close>

text \<open>
  When the bytes still to be read are processed without a decoding error, the calls of
  \<^verbatim>\<open>receive\<close> hand out the queued messages and then the messages of the stream, one
  per call, however the stream is cut into reads.
\<close>

lemma receive_loop_message:
  assumes "process_bytes (concat chunks) (msg_buffer conn) (msg_len conn) [] = (buf', Some len', m # rest)"
      and "pending_messages conn = []"
  shows "\<exists>conn' msgs'. receive_loop timed chunks conn = (Message m, conn')
           \<and> connected conn' = connected conn
           \<and> process_bytes (concat (uart conn')) (msg_buffer conn') (msg_len conn') [] = (buf', Some len', msgs')
           \<and> pending_messages conn' @ msgs' = rest"
  using assms
proof (induction chunks arbitrary: conn)
  case Nil
  then show ?case by simp
next
  case (Cons chunk cs)
  show ?case
  proof (cases "chunk = []")
    case True
    then show ?thesis using Cons.IH [of conn] Cons.prems by simp
  next
    case False
    obtain b1 r1 p1 where c1: "process_bytes chunk (msg_buffer conn) (msg_len conn) [] = (b1, r1, p1)"
      by (cases "process_bytes chunk (msg_buffer conn) (msg_len conn) []") auto
    have whole: "(case (b1, r1, p1) of (b, None, p) \<Rightarrow> (b, None, p) | (b, Some l, p) \<Rightarrow> process_bytes (concat cs) b l p)
                 = (buf', Some len', m # rest)"
      using Cons.prems(1) c1 by (simp add: process_bytes_append)
    then obtain l1 where r1: "r1 = Some l1" by (cases r1) auto
    have tail: "process_bytes (concat cs) b1 l1 p1 = (buf', Some len', m # rest)"
      using whole r1 by simp
    show ?thesis
    proof (cases p1)
      case Nil
      let ?c = "conn\<lparr>msg_buffer := b1, msg_len := l1\<rparr>"
      have "\<exists>conn' msgs'. receive_loop timed cs ?c = (Message m, conn')
           \<and> connected conn' = connected ?c
           \<and> process_bytes (concat (uart conn')) (msg_buffer conn') (msg_len conn') [] = (buf', Some len', msgs')
           \<and> pending_messages conn' @ msgs' = rest"
        using tail Nil Cons.prems(2) by (intro Cons.IH) auto
      moreover have "receive_loop timed (chunk # cs) conn = receive_loop timed cs ?c"
        using False c1 r1 Nil Cons.prems(2) by simp
      ultimately show ?thesis by simp
    next
      case (Cons m1 q1)
      obtain b2 r2 new where c2: "process_bytes (concat cs) b1 l1 [] = (b2, r2, new)"
        by (cases "process_bytes (concat cs) b1 l1 []") auto
      have "process_bytes (concat cs) b1 l1 (p1 @ []) = (b2, r2, p1 @ new)"
        using c2 by (simp only: process_bytes_pending) simp
      then have eq: "b2 = buf'" "r2 = Some len'" "p1 @ new = m # rest" using tail by auto
      let ?c = "conn\<lparr>uart := cs, msg_buffer := b1, msg_len := l1, pending_messages := q1\<rparr>"
      have "receive_loop timed (chunk # cs) conn = (Message m1, ?c)"
        using False c1 r1 Cons Cons.prems(2) by simp
      moreover have "m1 = m" "q1 @ new = rest" using eq(3) Cons by auto
      ultimately show ?thesis using c2 eq(1,2) by auto
    qed
  qed
qed

lemma receive_loop_nothing:
  assumes "process_bytes (concat chunks) (msg_buffer conn) (msg_len conn) [] = (buf', Some len', [])"
      and "pending_messages conn = []"
  shows "receive_loop timed chunks conn =
           (if timed then Nothing else Blocks, conn\<lparr>uart := [], msg_buffer := buf', msg_len := len'\<rparr>)"
  using assms
proof (induction chunks arbitrary: conn)
  case Nil
  then show ?case by simp
next
  case (Cons chunk cs)
  show ?case
  proof (cases "chunk = []")
    case True
    then show ?thesis using Cons.IH [of conn] Cons.prems by simp
  next
    case False
    obtain b1 r1 p1 where c1: "process_bytes chunk (msg_buffer conn) (msg_len conn) [] = (b1, r1, p1)"
      by (cases "process_bytes chunk (msg_buffer conn) (msg_len conn) []") auto
    have whole: "(case (b1, r1, p1) of (b, None, p) \<Rightarrow> (b, None, p) | (b, Some l, p) \<Rightarrow> process_bytes (concat cs) b l p)
                 = (buf', Some len', [])"
      using Cons.prems(1) c1 by (simp add: process_bytes_append)
    then obtain l1 where r1: "r1 = Some l1" by (cases r1) auto
    have tail: "process_bytes (concat cs) b1 l1 p1 = (buf', Some len', [])"
      using whole r1 by simp
    obtain b2 r2 new where c2: "process_bytes (concat cs) b1 l1 [] = (b2, r2, new)"
      by (cases "process_bytes (concat cs) b1 l1 []") auto
    have "process_bytes (concat cs) b1 l1 (p1 @ []) = (b2, r2, p1 @ new)"
      using c2 by (simp only: process_bytes_pending) simp
    then have p1: "p1 = []" using tail by auto
    let ?c = "conn\<lparr>msg_buffer := b1, msg_len := l1\<rparr>"
    have "receive_loop timed cs ?c = (if timed then Nothing else Blocks, ?c\<lparr>uart := [], msg_buffer := buf', msg_len := len'\<rparr>)"
      using tail p1 Cons.prems(2) by (intro Cons.IH) auto
    moreover have "receive_loop timed (chunk # cs) conn = receive_loop timed cs ?c"
      using False c1 r1 p1 Cons.prems(2) by simp
    ultimately show ?thesis by simp
  qed
qed

lemma receive_step:
  assumes "ble cid = Some conn" "connected conn"
      and "process_bytes (concat (uart conn)) (msg_buffer conn) (msg_len conn) [] = (buf', Some len', msgs)"
      and "pending_messages conn @ msgs = m # rest"
  shows "\<exists>conn' msgs'. receive ble cid timed = (Message m, ble(cid \<mapsto> conn'))
           \<and> connected conn'
           \<and> process_bytes (concat (uart conn')) (msg_buffer conn') (msg_len conn') [] = (buf', Some len', msgs')
           \<and> pending_messages conn' @ msgs' = rest"
proof (cases "pending_messages conn")
  case Nil
  then have "msgs = m # rest" using assms(4) by simp
  then obtain conn' msgs' where "receive_loop timed (uart conn) conn = (Message m, conn')"
     "connected conn' = connected conn"
     "process_bytes (concat (uart conn')) (msg_buffer conn') (msg_len conn') [] = (buf', Some len', msgs')"
     "pending_messages conn' @ msgs' = rest"
    using receive_loop_message [of "uart conn" conn buf' len' m rest timed] assms(3) Nil by auto
  then show ?thesis using assms(1,2) Nil by (auto simp: receive_def)
next
  case (Cons m1 q)
  then have "m1 = m" "q @ msgs = rest" using assms(4) by auto
  then show ?thesis using assms(1,2,3) Cons
    by (auto simp: receive_def intro!: exI [of _ "conn\<lparr>pending_messages := q\<rparr>"])
qed

lemma receive_n_messages:
  assumes "ble cid = Some conn" "connected conn"
      and "process_bytes (concat (uart conn)) (msg_buffer conn) (msg_len conn) [] = (buf', Some len', msgs)"
      and "pending_messages conn @ msgs = all"
  shows "\<exists>conn'. receive_n (length all) ble cid timed = (map Message all, ble(cid \<mapsto> conn'))
           \<and> connected conn' \<and> pending_messages conn' = []
           \<and> process_bytes (concat (uart conn')) (msg_buffer conn') (msg_len conn') [] = (buf', Some len', [])"
  using assms
proof (induction all arbitrary: ble conn msgs)
  case Nil
  then show ?case by (auto intro!: exI [of _ conn])
next
  case (Cons m rest)
  obtain conn1 msgs1 where s: "receive ble cid timed = (Message m, ble(cid \<mapsto> conn1))"
      "connected conn1"
      "process_bytes (concat (uart conn1)) (msg_buffer conn1) (msg_len conn1) [] = (buf', Some len', msgs1)"
      "pending_messages conn1 @ msgs1 = rest"
    using receive_step [of ble cid conn buf' len' msgs m rest timed] Cons.prems by blast
  have "\<exists>conn'. receive_n (length rest) (ble(cid \<mapsto> conn1)) cid timed = (map Message rest, (ble(cid \<mapsto> conn1))(cid \<mapsto> conn'))
           \<and> connected conn' \<and> pending_messages conn' = []
           \<and> process_bytes (concat (uart conn')) (msg_buffer conn') (msg_len conn') [] = (buf', Some len', [])"
    using s by (intro Cons.IH) auto
  then obtain conn' where c: "receive_n (length rest) (ble(cid \<mapsto> conn1)) cid timed = (map Message rest, ble(cid \<mapsto> conn'))"
      "connected conn'" "pending_messages conn' = []"
      "process_bytes (concat (uart conn')) (msg_buffer conn') (msg_len conn') [] = (buf', Some len', [])"
    by auto
  have "receive_n (length (m # rest)) ble cid timed = (map Message (m # rest), ble(cid \<mapsto> conn'))"
    using s(1) c(1) by simp
  then show ?case using c(2,3,4) by blast
qed

subsection \<open>What holds in every reachable state\<close>

lemma utf8_decode_empty: "utf8_decode bs = Some [] \<Longrightarrow> bs = []"
  by (cases bs) (auto split: if_splits list.splits)

lemma process_bytes_nonempty:
  assumes "process_bytes xs buf len pend = (buf', r, pend')" "len \<le> length buf" "[] \<notin> set pend"
  shows "[] \<notin> set pend'"
  using assms
proof (induction xs buf len pend rule: process_bytes.induct)
  case (1 msg_buf len pending)
  then show ?case by simp
next
  case (2 b bs msg_buf len pending)
  show ?case
  proof (cases "b = EOT")
    case True
    show ?thesis
    proof (cases "len > 0")
      case pos: True
      show ?thesis
      proof (cases "utf8_decode (take len msg_buf)")
        case None
        then show ?thesis using 2 True pos by simp
      next
        case (Some m)
        have "take len msg_buf \<noteq> []" using pos "2.prems"(2) by auto
        then have "m \<noteq> []" using Some utf8_decode_empty by blast
        then show ?thesis using 2 True pos Some by simp
      qed
    next
      case False
      then show ?thesis using 2 True by simp
    qed
  next
    case False
    then show ?thesis using 2 by (cases "len < length msg_buf") auto
  qed
qed

lemma receive_loop_wf:
  assumes "receive_loop timed chunks conn = (r, conn')" "wf_connection conn"
  shows "wf_connection conn' \<and> r \<noteq> Message []"
  using assms
proof (induction chunks arbitrary: conn)
  case Nil
  then show ?case by (auto simp: wf_connection_def split: if_splits)
next
  case (Cons chunk cs)
  show ?case
  proof (cases "chunk = []")
    case True
    then show ?thesis using Cons by simp
  next
    case False
    obtain b1 r1 p1 where c1: "process_bytes chunk (msg_buffer conn) (msg_len conn) (pending_messages conn) = (b1, r1, p1)"
      by (cases "process_bytes chunk (msg_buffer conn) (msg_len conn) (pending_messages conn)") auto
    have len: "length b1 = 512" using process_bytes_length [OF c1] Cons.prems(2) by (simp add: wf_connection_def)
    have ne: "[] \<notin> set p1" using process_bytes_nonempty [OF c1] Cons.prems(2) by (simp add: wf_connection_def)
    show ?thesis
    proof (cases r1)
      case None
      then show ?thesis using Cons.prems False c1 len ne by (auto simp: wf_connection_def)
    next
      case (Some l1)
      have l1: "l1 \<le> 512" using process_bytes_bound [of chunk "msg_buffer conn" "msg_len conn" "pending_messages conn" b1 l1 p1] c1 Some Cons.prems(2)
        by (simp add: wf_connection_def)
      show ?thesis
      proof (cases p1)
        case Nil
        have "wf_connection (conn\<lparr>msg_buffer := b1, msg_len := l1\<rparr>)" using Cons.prems(2) len l1 by (simp add: wf_connection_def)
        moreover have "receive_loop timed cs (conn\<lparr>msg_buffer := b1, msg_len := l1\<rparr>) = (r, conn')"
          using Cons.prems(1) False c1 Some Nil by simp
        ultimately show ?thesis using Cons.IH by blast
      next
        case (Cons m q)
        then show ?thesis using Cons.prems False c1 Some len l1 ne by (auto simp: wf_connection_def)
      qed
    qed
  qed
qed

lemma receive_wf:
  assumes "receive ble cid timed = (r, ble')" "\<forall>c \<in> ran ble. wf_connection c"
  shows "(\<forall>c \<in> ran ble'. wf_connection c) \<and> r \<noteq> Message []"
proof (cases "ble cid")
  case None
  then show ?thesis using assms by (simp add: receive_def)
next
  case (Some conn)
  have w: "wf_connection conn" using Some assms(2) by (auto simp: ran_def)
  show ?thesis
  proof (cases "connected conn")
    case False
    then show ?thesis using assms Some by (simp add: receive_def)
  next
    case True
    show ?thesis
    proof (cases "pending_messages conn")
      case Nil
      obtain r1 c1 where l: "receive_loop timed (uart conn) conn = (r1, c1)" by force
      have "wf_connection c1 \<and> r1 \<noteq> Message []" using receive_loop_wf [OF l w] .
      moreover have "r = r1" "ble' = ble(cid \<mapsto> c1)" using assms(1) Some True Nil l by (auto simp: receive_def)
      ultimately show ?thesis using assms(2) by (auto simp: ran_def)
    next
      case (Cons m q)
      have "wf_connection (conn\<lparr>pending_messages := q\<rparr>)" "m \<noteq> []" using w Cons by (auto simp: wf_connection_def)
      moreover have "r = Message m" "ble' = ble(cid \<mapsto> conn\<lparr>pending_messages := q\<rparr>)"
        using assms(1) Some True Cons by (auto simp: receive_def)
      ultimately show ?thesis using assms(2) by (auto simp: ran_def)
    qed
  qed
qed

lemma reachable_wf: "reachable ble \<Longrightarrow> \<forall>c \<in> ran ble. wf_connection c"
proof (induction rule: reachable.induct)
  case start
  then show ?case by simp
next
  case (connect ble conn_id)
  then show ?case by (auto simp: ran_def wf_connection_def BLEConnection_init_def)
next
  case (disconnect ble conn_id)
  then show ?case by (auto simp: ran_def)
next
  case (deliver ble conn_id conn chunk)
  then have "wf_connection conn" by (auto simp: ran_def)
  then have "wf_connection (conn\<lparr>uart := uart conn @ [chunk]\<rparr>)" by (simp add: wf_connection_def)
  then show ?case using deliver by (auto simp: ran_def)
next
  case (link ble conn_id conn up)
  then have "wf_connection conn" by (auto simp: ran_def)
  then have "wf_connection (conn\<lparr>connected := up\<rparr>)" by (simp add: wf_connection_def)
  then show ?case using link by (auto simp: ran_def)
next
  case (received ble conn_id timed r ble')
  then show ?case using receive_wf by blast
qed

subsection \<open>Overflow of the accumulator\<close>

text \<open>
  Bytes other than EOT, with overflow: every 513th byte finds the buffer full, empties it
  and is itself lost, so what is left after \<open>p\<close> is the end of \<open>p\<close> behind the last
  such byte.
\<close>

lemma accumulate_wrap:
  assumes "EOT \<notin> set p" "len \<le> length buf"
  shows "\<exists>buf'. process_bytes (p @ rest) buf len pend =
            process_bytes rest buf' ((len + length p) mod (length buf + 1)) pend
          \<and> length buf' = length buf
          \<and> (length buf < len + length p \<longrightarrow>
               take ((len + length p) mod (length buf + 1)) buf' =
               drop (length p - (len + length p) mod (length buf + 1)) p)"
  using assms
proof (induction p arbitrary: rest rule: rev_induct)
  case Nil
  then show ?case by (auto intro!: exI [of _ buf])
next
  case (snoc b p)
  let ?N = "length buf"
  let ?l1 = "(len + length p) mod (?N + 1)"
  have b: "b \<noteq> EOT" using snoc.prems by auto
  obtain buf1 where 1: "process_bytes (p @ b # rest) buf len pend = process_bytes (b # rest) buf1 ?l1 pend"
      and len1: "length buf1 = ?N"
      and cont1: "?N < len + length p \<longrightarrow> take ?l1 buf1 = drop (length p - ?l1) p"
    using snoc.IH [of "b # rest"] snoc.prems by auto
  have "?l1 < ?N + 1" by (rule mod_less_divisor) simp
  then have l1: "?l1 \<le> ?N" by linarith
  show ?case
  proof (cases "?l1 < ?N")
    case True
    have m: "(len + length (p @ [b])) mod (?N + 1) = ?l1 + 1"
      using True by (simp add: mod_Suc)
    have 2: "process_bytes (b # rest) buf1 ?l1 pend = process_bytes rest (buf1[?l1 := b]) (?l1 + 1) pend"
      using b True len1 by simp
    have 3: "take (?l1 + 1) (buf1[?l1 := b]) = drop (length (p @ [b]) - (?l1 + 1)) (p @ [b])"
      if big: "?N < len + length (p @ [b])"
    proof -
      have "len + length p \<noteq> ?N" using True by auto
      then have "?N < len + length p" using big by simp
      then have c: "take ?l1 buf1 = drop (length p - ?l1) p" using cont1 by simp
      have le: "?l1 \<le> length p"
        using c True len1 by (metis length_take length_drop min.absorb2 less_imp_le_nat diff_le_self)
      have "take (?l1 + 1) (buf1[?l1 := b]) = take ?l1 buf1 @ [b]"
        using True len1 by (simp add: take_Suc_conv_app_nth)
      also have "\<dots> = drop (length p - ?l1) p @ [b]" using c by simp
      also have "\<dots> = drop (length (p @ [b]) - (?l1 + 1)) (p @ [b])" using le by simp
      finally show ?thesis .
    qed
    show ?thesis
      apply (rule exI [of _ "buf1[?l1 := b]"])
      using 1 2 3 m len1 by (simp del: process_bytes.simps)
  next
    case False
    then have eq: "?l1 = ?N" using l1 by linarith
    have m: "(len + length (p @ [b])) mod (?N + 1) = 0"
      using eq by (simp add: mod_Suc)
    have 2: "process_bytes (b # rest) buf1 ?l1 pend = process_bytes rest buf1 0 pend"
      using b eq len1 by simp
    show ?thesis
      apply (rule exI [of _ buf1])
      using 1 2 m len1 by (simp del: process_bytes.simps)
  qed
qed

lemma oversized_stream:
  assumes "EOT \<notin> set p" "length buf = 512" "512 < length p"
      and "utf8_decode (drop (length p - length p mod 513) p) = Some t"
      and "\<forall>q \<in> set payloads. q \<noteq> [] \<and> EOT \<notin> set q \<and> length q \<le> 512"
      and "map utf8_decode payloads = map Some msgs"
  shows "\<exists>buf'. process_bytes (p @ EOT # framed payloads) buf 0 [] =
            (buf', Some 0, (if t = [] then [] else [t]) @ msgs)"
proof -
  let ?l = "length p mod 513"
  let ?tail = "drop (length p - ?l) p"
  obtain buf1 where 1: "process_bytes (p @ EOT # framed payloads) buf 0 [] =
        process_bytes (EOT # framed payloads) buf1 ?l []"
      and len1: "length buf1 = 512" and cont: "take ?l buf1 = ?tail"
    using accumulate_wrap [of p 0 buf "EOT # framed payloads" "[]"] assms(1,2,3) by auto
  have tl: "length ?tail = ?l" by simp
  have 2: "process_bytes (EOT # framed payloads) buf1 ?l [] =
        process_bytes (framed payloads) buf1 0 (if t = [] then [] else [t])"
  proof (cases "?l = 0")
    case True
    then have "?tail = []" using tl by simp
    then have "t = []" using assms(4) by simp
    then show ?thesis using True by simp
  next
    case False
    then have "?tail \<noteq> []" using tl by auto
    then have "t \<noteq> []" using assms(4) utf8_decode_empty by blast
    then show ?thesis using False cont assms(4) by simp
  qed
  obtain buf2 where 3: "process_bytes (framed payloads @ []) buf1 0 (if t = [] then [] else [t]) =
        process_bytes [] buf2 0 ((if t = [] then [] else [t]) @ msgs)"
    using frames [of payloads buf1 msgs "[]" "if t = [] then [] else [t]"] assms(5,6) len1 by auto
  show ?thesis using 1 2 3 by (auto simp del: process_bytes.simps simp add: process_bytes.simps(1))
qed

lemma oversized_delivery:
  assumes "ble conn_id = Some conn" "connected conn"
      and "pending_messages conn = []" "msg_len conn = 0" "length (msg_buffer conn) = 512"
      and "concat (uart conn) = p @ EOT # framed payloads"
      and "EOT \<notin> set p" "512 < length p"
      and "utf8_decode (drop (length p - length p mod 513) p) = Some t"
      and "\<forall>q \<in> set payloads. q \<noteq> [] \<and> EOT \<notin> set q \<and> length q \<le> 512"
      and "map utf8_decode payloads = map Some msgs"
      and "delivered = (if t = [] then [] else [t]) @ msgs"
  shows "fst (receive_n (length delivered + 1) ble conn_id True) = map Message delivered @ [Nothing]"
proof -
  obtain buf' where s: "process_bytes (concat (uart conn)) (msg_buffer conn) (msg_len conn) [] = (buf', Some 0, delivered)"
    using oversized_stream [of p "msg_buffer conn" t payloads msgs] assms by auto
  obtain c' where c: "receive_n (length delivered) ble conn_id True = (map Message delivered, ble(conn_id \<mapsto> c'))"
      "connected c'" "pending_messages c' = []"
      "process_bytes (concat (uart c')) (msg_buffer c') (msg_len c') [] = (buf', Some 0, [])"
    using receive_n_messages [of ble conn_id conn buf' 0 delivered delivered True] assms(1,2,3) s by auto
  have "receive_loop True (uart c') c' = (Nothing, c'\<lparr>uart := [], msg_buffer := buf', msg_len := 0\<rparr>)"
    using receive_loop_nothing [of "uart c'" c' buf' 0 True] c(3,4) by simp
  then have "receive (ble(conn_id \<mapsto> c')) conn_id True =
      (Nothing, (ble(conn_id \<mapsto> c'))(conn_id \<mapsto> c'\<lparr>uart := [], msg_buffer := buf', msg_len := 0\<rparr>))"
    using c(2,3) by (simp add: receive_def)
  then show ?thesis using c(1) by (simp add: receive_n_snoc del: receive_n.simps)
qed

lemma replicate_514: "replicate 514 x = replicate 256 x @ replicate 256 x @ [x, x]"
proof -
  have "replicate (256 + 256 + 2) x = replicate 256 x @ replicate 256 x @ replicate 2 x"
    by (simp only: replicate_add append_assoc)
  moreover have "replicate 2 x = [x, x]" by (simp add: numeral_2_eq_2)
  ultimately show ?thesis by simp
qed

lemma tail_of_514: "drop (length (replicate 514 x) - length (replicate 514 x) mod 513)
    (replicate 514 x) = [x]"
proof -
  have "drop 513 (replicate 514 x) = replicate (514 - 513) x" by (simp only: drop_replicate)
  then show ?thesis by simp
qed

text \<open>
  Claim C9 as stated fails. A message of 514 letters "A" is oversized, so according to the
  claim it is dropped and the calls of \<^verbatim>\<open>receive\<close> return \<^verbatim>\<open>None\<close>. In the code the
  513th byte empties the accumulator, the 514th byte starts a new frame, and the EOT
  completes it: the first call returns the message "A".
\<close>

theorem oversized_message_tail_delivered:
  "fst (receive_n 2 oversized ''primary'' True) = [Message [0x41], Nothing]"
proof -
  let ?conn = "BLEConnection_init
        \<lparr>uart := [replicate 256 0x41, replicate 256 0x41, [0x41, 0x41, EOT]]\<rparr>"
  have 1: "oversized ''primary'' = Some ?conn" by (simp add: oversized_def)
  have 2: "connected ?conn" "pending_messages ?conn = []" "msg_len ?conn = 0"
      "length (msg_buffer ?conn) = 512"
    by (simp_all add: BLEConnection_init_def)
  have 3: "concat (uart ?conn) = replicate 514 0x41 @ EOT # framed []"
    by (simp add: replicate_514 framed_def)
  have 4: "EOT \<notin> set (replicate 514 (0x41 :: byte))" "512 < length (replicate 514 (0x41 :: byte))"
    by (simp_all add: EOT_def)
  have 5: "utf8_decode (drop (length (replicate 514 (0x41 :: byte))
      - length (replicate 514 (0x41 :: byte)) mod 513) (replicate 514 0x41)) = Some [0x41]"
    by (simp only: tail_of_514) simp
  have 6: "\<forall>q \<in> set ([] :: byte list list). q \<noteq> [] \<and> EOT \<notin> set q \<and> length q \<le> 512"
    by simp
  have 7: "map utf8_decode [] = map Some []" by simp
  have 8: "[[0x41 :: nat]] = (if [0x41 :: nat] = [] then [] else [[0x41]]) @ []" by simp
  have "fst (receive_n (length [[0x41 :: nat]] + 1) oversized ''primary'' True) =
      map Message [[0x41]] @ [Nothing]"
    by (rule oversized_delivery [of oversized "''primary''" ?conn "replicate 514 0x41" "[]"
          "[0x41]" "[]" "[[0x41]]", OF 1 2 3 4 5 6 7 8])
  moreover have "length [[0x41 :: nat]] + 1 = 2" by simp
  ultimately show ?thesis by (simp only: list.map append.simps)
qed

text \<open>
  Claim C9, amended. In every reachable state the accumulator holds at most 512 bytes, and
  a byte other than EOT that arrives while the accumulator is full empties the accumulator
  and is itself discarded. The oversized message is not dropped as a whole: the bytes that
  follow the discarded one start a new frame. On a connected link with an empty queue and
  an empty accumulator, let the bytes to come be a message of \<open>L > 512\<close> bytes, its EOT,
  and then complete messages (each not empty, without EOT, of at most 512 bytes and valid
  UTF-8). If the last \<open>L mod 513\<close> bytes of the oversized message decode as UTF-8, they
  are delivered as a message when they are not zero in number, the messages behind them
  are then all delivered, in order, and the call after that returns \<^verbatim>\<open>None\<close>. What
  happens when those last bytes do not decode is not part of this statement.
\<close>

theorem overflow_resets_accumulator:
  assumes "reachable ble" and "ble conn_id = Some conn"
  shows "msg_len conn \<le> 512
     \<and> (b \<noteq> EOT \<longrightarrow>
          process_bytes (b # bs) (msg_buffer conn) 512 pend =
          process_bytes bs (msg_buffer conn) 0 pend)
     \<and> (connected conn \<and> pending_messages conn = [] \<and> msg_len conn = 0
        \<and> concat (uart conn) = p @ EOT # framed payloads
        \<and> EOT \<notin> set p \<and> 512 < length p
        \<and> utf8_decode (drop (length p - length p mod 513) p) = Some t
        \<and> (\<forall>q \<in> set payloads. q \<noteq> [] \<and> EOT \<notin> set q \<and> length q \<le> 512)
        \<and> map utf8_decode payloads = map Some msgs
        \<longrightarrow> fst (receive_n (length ((if t = [] then [] else [t]) @ msgs) + 1)
                  ble conn_id True) =
              map Message ((if t = [] then [] else [t]) @ msgs) @ [Nothing])"
proof -
  have w: "wf_connection conn"
    using reachable_wf [OF assms(1)] assms(2) by (auto simp: ran_def)
  then have len: "length (msg_buffer conn) = 512" and a: "msg_len conn \<le> 512"
    by (simp_all add: wf_connection_def)
  have b: "process_bytes (b # bs) (msg_buffer conn) 512 pend =
      process_bytes bs (msg_buffer conn) 0 pend" if "b \<noteq> EOT"
    using that len by simp
  have c: "fst (receive_n (length ((if t = [] then [] else [t]) @ msgs) + 1) ble conn_id True) =
      map Message ((if t = [] then [] else [t]) @ msgs) @ [Nothing]"
    if "connected conn" "pending_messages conn = []" "msg_len conn = 0"
      "concat (uart conn) = p @ EOT # framed payloads" "EOT \<notin> set p" "512 < length p"
      "utf8_decode (drop (length p - length p mod 513) p) = Some t"
      "\<forall>q \<in> set payloads. q \<noteq> [] \<and> EOT \<notin> set q \<and> length q \<le> 512"
      "map utf8_decode payloads = map Some msgs"
    using oversized_delivery [of ble conn_id conn p payloads t msgs
        "(if t = [] then [] else [t]) @ msgs"] assms(2) len that
    by blast
  show ?thesis using a b c by blast
qed

theorem overflow_resets_accumulator_witness:
  "reachable oversized_then_b
 \<and> oversized_then_b ''primary'' = Some (BLEConnection_init
      \<lparr>uart := [replicate 256 0x41, replicate 256 0x41, [0x41, 0x41, EOT, 0x42, EOT]]\<rparr>)
 \<and> (0x41 :: byte) \<noteq> EOT
 \<and> process_bytes [0x41] (replicate 512 0) 512 [] = process_bytes [] (replicate 512 0) 0 []
 \<and> fst (receive_n 3 oversized_then_b ''primary'' True) =
      [Message [0x41], Message [0x42], Nothing]"
proof -
  let ?conn = "BLEConnection_init
        \<lparr>uart := [replicate 256 0x41, replicate 256 0x41, [0x41, 0x41, EOT, 0x42, EOT]]\<rparr>"
  have r: "reachable oversized_then_b"
    unfolding oversized_then_b_def by (rule reachable_three_reads)
  have 1: "oversized_then_b ''primary'' = Some ?conn" by (simp add: oversized_then_b_def)
  have 2: "connected ?conn" "pending_messages ?conn = []" "msg_len ?conn = 0"
    by (simp_all add: BLEConnection_init_def)
  have 3: "concat (uart ?conn) = replicate 514 0x41 @ EOT # framed [[0x42]]"
    by (simp add: replicate_514 framed_def)
  have 4: "EOT \<notin> set (replicate 514 (0x41 :: byte))" "512 < length (replicate 514 (0x41 :: byte))"
    by (simp_all add: EOT_def)
  have 5: "utf8_decode (drop (length (replicate 514 (0x41 :: byte))
      - length (replicate 514 (0x41 :: byte)) mod 513) (replicate 514 0x41)) = Some [0x41]"
    by (simp only: tail_of_514) simp
  have 6: "\<forall>q \<in> set [[0x42 :: byte]]. q \<noteq> [] \<and> EOT \<notin> set q \<and> length q \<le> 512"
    by (simp add: EOT_def)
  have 7: "map utf8_decode [[0x42]] = map Some [[0x42]]" by simp
  have 8: "(0x41 :: byte) \<noteq> EOT" by (simp add: EOT_def)
  note t = overflow_resets_accumulator [OF r 1, of "0x41" "[]" "[]" "replicate 514 0x41"
      "[[0x42]]" "[0x41]" "[[0x42]]"]
  have m: "msg_buffer ?conn = replicate 512 0" by (simp add: BLEConnection_init_def)
  have "process_bytes [0x41] (msg_buffer ?conn) 512 [] = process_bytes [] (msg_buffer ?conn) 0 []"
    by (rule mp [OF t [THEN conjunct2, THEN conjunct1] 8])
  then have a: "process_bytes [0x41] (replicate 512 0) 512 [] =
      process_bytes [] (replicate 512 0) 0 []"
    by (simp only: m)
  have "fst (receive_n (length ((if [0x41 :: nat] = [] then [] else [[0x41 :: nat]])
      @ [[0x42]]) + 1) oversized_then_b ''primary'' True) =
      map Message ((if [0x41 :: nat] = [] then [] else [[0x41]]) @ [[0x42]]) @ [Nothing]"
    by (rule mp [OF t [THEN conjunct2, THEN conjunct2]]) (intro conjI 2 3 4 5 6 7)
  moreover have "length ((if [0x41 :: nat] = [] then [] else [[0x41 :: nat]]) @ [[0x42]]) + 1 = 3"
    by simp
  moreover have "map Message ((if [0x41 :: nat] = [] then [] else [[0x41]]) @ [[0x42]])
      @ [Nothing] = [Message [0x41], Message [0x42], Nothing]"
    by simp
  ultimately have b: "fst (receive_n 3 oversized_then_b ''primary'' True) =
      [Message [0x41], Message [0x42], Nothing]"
    by (simp only:)
  show ?thesis by (intro conjI r 1 8 a b)
qed

text \<open>
  Claim C10. In every reachable state of the link, whatever the bytes delivered so far,
  a call of \<^verbatim>\<open>receive\<close> does not return the empty string: an EOT that finds the
  accumulator empty queues nothing.
\<close>

theorem receive_never_empty:
  assumes "reachable ble"
  shows "fst (receive ble conn_id timed) \<noteq> Message []"
proof -
  obtain r ble' where r: "receive ble conn_id timed = (r, ble')" by force
  then show ?thesis using receive_wf [OF r reachable_wf [OF assms]] by simp
qed

theorem receive_never_empty_witness:
  "reachable empty_frame_first
 \<and> fst (receive empty_frame_first ''primary'' True) \<noteq> Message []"
proof -
  let ?i = BLEConnection_init
  have 0: "reachable (Map.empty(''primary'' \<mapsto> ?i))" by (rule connect [OF start])
  have "reachable ((Map.empty(''primary'' \<mapsto> ?i))
      (''primary'' \<mapsto> ?i\<lparr>uart := uart ?i @ [[EOT, 0x41, EOT]]\<rparr>))"
    by (rule deliver [OF 0]) simp
  then have r: "reachable empty_frame_first"
    by (simp add: empty_frame_first_def BLEConnection_init_def)
  show ?thesis using r receive_never_empty [OF r, of "''primary''" True] by blast
qed

section \<open>Sync statistics\<close>

lemma add_samples_append:
  "add_samples (xs @ ys) s = add_samples ys (add_samples xs s)"
  by (induction xs arbitrary: s) auto

text \<open>The last \<open>mx\<close> elements of a list, and how one more element changes them.\<close>

lemma newest_snoc:
  "drop (length (calls @ [c]) - mx) (calls @ [c]) =
     (let b = drop (length calls - mx) calls @ [c] in if length b > mx then tl b else b)"
proof (cases "length calls < mx")
  case True
  then show ?thesis by simp
next
  case False
  then have "Suc (length calls) - mx = Suc (length calls - mx)" by simp
  then have "drop (length (calls @ [c]) - mx) (calls @ [c]) =
      tl (drop (length calls - mx) (calls @ [c]))"
    by (simp add: drop_Suc tl_drop del: drop_append)
  also have "\<dots> = tl (drop (length calls - mx) calls @ [c])" by simp
  finally show ?thesis using False by (simp add: Let_def)
qed

lemma buffers_after_add_samples:
  "network_latency_samples (add_samples calls (SyncStats_init mx)) =
     map (\<lambda>(now, n, e, t). n) (drop (length calls - mx) calls)
 \<and> execution_time_samples (add_samples calls (SyncStats_init mx)) =
     map (\<lambda>(now, n, e, t). e) (drop (length calls - mx) calls)
 \<and> total_latency_samples (add_samples calls (SyncStats_init mx)) =
     map (\<lambda>(now, n, e, t). t) (drop (length calls - mx) calls)
 \<and> max_samples (add_samples calls (SyncStats_init mx)) = mx"
proof (induction calls rule: rev_induct)
  case Nil
  show ?case by (simp add: SyncStats_init_def)
next
  case (snoc c calls)
  obtain now n e t where c: "c = (now, n, e, t)" by (cases c) auto
  show ?case using snoc
    by (simp only: newest_snoc) (simp add: add_samples_append c add_sample_def Let_def map_tl)
qed

lemma zip_sample_columns:
  "zip (map (\<lambda>(now, n, e, t). n) xs)
       (zip (map (\<lambda>(now, n, e, t). e) xs) (map (\<lambda>(now, n, e, t). t) xs)) =
     map (\<lambda>(now, n, e, t). (n, e, t)) xs"
  by (induction xs) auto

text \<open>
  Claim C6. After any sequence of \<^verbatim>\<open>add_sample\<close> calls on a fresh collector the three
  buffers have the same length, that length is at most \<^verbatim>\<open>max_samples\<close>, and read in
  parallel the buffers are exactly the (network, execution, total) triples of the newest
  calls, in call order: position \<open>i\<close> of each buffer comes from the same call, and what
  overflow removes is the oldest call, from all three buffers.
\<close>

theorem add_sample_keeps_buffers_aligned:
  "(let s = add_samples calls (SyncStats_init mx)
    in length (execution_time_samples s) = length (network_latency_samples s)
     \<and> length (total_latency_samples s) = length (network_latency_samples s)
     \<and> length (network_latency_samples s) \<le> max_samples s
     \<and> zip (network_latency_samples s)
           (zip (execution_time_samples s) (total_latency_samples s)) =
         map (\<lambda>(now, n, e, t). (n, e, t)) (drop (length calls - mx) calls))"
proof -
  let ?s = "add_samples calls (SyncStats_init mx)"
  let ?new = "drop (length calls - mx) calls"
  note b = buffers_after_add_samples [of calls mx]
  show ?thesis using b by (simp add: Let_def zip_sample_columns)
qed

lemma sorted_le_last:
  fixes ys :: "int list"
  assumes "sorted ys" "y \<in> set ys"
  shows "y \<le> last ys"
proof -
  from assms(2) obtain i where i: "i < length ys" "ys ! i = y"
    by (auto simp: in_set_conv_nth)
  then have ne: "ys \<noteq> []" by auto
  have "ys ! i \<le> ys ! (length ys - 1)"
    using assms(1) i(1) by (intro sorted_nth_mono) auto
  then show ?thesis using i(2) ne by (simp add: last_conv_nth)
qed

lemma last_sort_Max:
  fixes xs :: "int list"
  assumes "xs \<noteq> []"
  shows "last (sort xs) = Max (set xs)"
proof -
  have ne: "sort xs \<noteq> []" using assms by (metis length_sort length_0_conv)
  have "Max (set (sort xs)) = last (sort xs)"
  proof (rule Max_eqI)
    show "finite (set (sort xs))" by simp
    show "\<And>y. y \<in> set (sort xs) \<Longrightarrow> y \<le> last (sort xs)"
      by (rule sorted_le_last [OF sorted_sort])
    show "last (sort xs) \<in> set (sort xs)" using ne by (rule last_in_set)
  qed
  then show ?thesis by simp
qed

text \<open>
  The source tests \<open>n > t\<close> where the specification says \<open>n \<ge> t\<close>. The two agree:
  at \<open>n = t\<close> the index \<open>q t div 100\<close> is \<open>t - 1\<close>, the position of the maximum.
\<close>

lemma percentile_rule:
  fixes samples :: "int list"
  assumes ne: "samples \<noteq> []" and q: "q * t = 100 * (t - 1)" "0 < t"
  shows "(if length samples > t then sort samples ! (q * length samples div 100)
          else last (sort samples)) = spec_percentile q t samples"
proof -
  let ?ys = "sort samples"
  let ?n = "length samples"
  have ne': "?ys \<noteq> []" using ne by (metis length_sort length_0_conv)
  have lastn: "last ?ys = ?ys ! (?n - 1)" using ne' by (simp add: last_conv_nth)
  have mx: "last ?ys = Max (set samples)" using ne by (rule last_sort_Max)
  show ?thesis
  proof (cases "?n = t")
    case True
    have "q * ?n div 100 = ?n - 1" using q True by simp
    then show ?thesis using True lastn mx by (simp add: spec_percentile_def Let_def)
  next
    case False
    then show ?thesis using mx by (auto simp: spec_percentile_def Let_def)
  qed
qed

lemma metric_statistics_percentiles:
  assumes "metric_statistics samples = Inr m"
  shows "p95 m = spec_percentile 95 20 samples \<and> p99 m = spec_percentile 99 100 samples"
proof -
  have ne: "samples \<noteq> []"
    using assms by (auto simp: metric_statistics_def Let_def)
  have a: "(if length samples > 20 then sort samples ! (95 * length samples div 100)
          else last (sort samples)) = spec_percentile 95 20 samples"
    using ne by (intro percentile_rule) auto
  have b: "(if length samples > 100 then sort samples ! (99 * length samples div 100)
          else last (sort samples)) = spec_percentile 99 100 samples"
    using ne by (intro percentile_rule) auto
  have "p95 m = (if length samples > 20 then sort samples ! (95 * length samples div 100)
          else last (sort samples))"
    using assms by (auto simp: metric_statistics_def Let_def split: if_splits)
  moreover have "p99 m = (if length samples > 100
          then sort samples ! (99 * length samples div 100) else last (sort samples))"
    using assms by (auto simp: metric_statistics_def Let_def split: if_splits)
  ultimately show ?thesis using a b by simp
qed

lemma sum_list_insort:
  fixes xs :: "int list"
  shows "sum_list (insort x xs) = x + sum_list xs"
  by (induction xs) auto

lemma sum_list_sort:
  fixes xs :: "int list"
  shows "sum_list (sort xs) = sum_list xs"
  by (induction xs) (auto simp: sort_key_simps sum_list_insort)

lemma metric_statistics_returns:
  "(\<exists>m. metric_statistics samples = Inr m) =
     (samples \<noteq> [] \<and> \<not> division_overflows (sum_list samples) (int (length samples)))"
proof -
  have s: "sum_list (sort samples) = sum_list samples" by (rule sum_list_sort)
  have e: "(sort samples = []) = (samples = [])" by (metis length_sort length_0_conv)
  show ?thesis by (auto simp: metric_statistics_def Let_def s e)
qed

lemma get_statistics_report:
  "(get_statistics s = Inr (Some r)) =
     (network_latency_samples s \<noteq> []
      \<and> metric_statistics (network_latency_samples s) = Inr (network_latency r)
      \<and> metric_statistics (execution_time_samples s) = Inr (execution_time r)
      \<and> metric_statistics (total_latency_samples s) = Inr (total_latency r))"
  by (cases r) (auto simp: get_statistics_def split: sum.splits)

text \<open>The percentiles of samples that are sorted already.\<close>

lemma sorted_map_upt:
  fixes f :: "nat \<Rightarrow> int"
  assumes "\<And>i j. i \<le> j \<Longrightarrow> f i \<le> f j"
  shows "sorted (map f [a..<b])"
  unfolding sorted_map by (rule sorted_wrt_mono_rel [of _ "(\<le>)"]) (use assms in auto)

lemma spec_percentile_sorted:
  assumes "sorted xs" "threshold \<le> length xs"
  shows "spec_percentile q threshold xs = xs ! (q * length xs div 100)"
  using assms by (simp add: spec_percentile_def Let_def sorted_sort_id)

text \<open>
  Claim C7. In every report that \<^verbatim>\<open>get_statistics\<close> returns, for each of the three
  metrics with its \<open>n\<close> samples, p95 is the sorted sample at index \<open>\<lfloor>0.95 n\<rfloor>\<close> when
  \<open>n \<ge> 20\<close> and the maximum sample otherwise, and p99 is the sorted sample at index
  \<open>\<lfloor>0.99 n\<rfloor>\<close> when \<open>n \<ge> 100\<close> and the maximum sample otherwise. A report is returned
  exactly when each metric has at least one sample and no mean is beyond the range of a
  double.
\<close>

theorem report_percentiles:
  "(get_statistics s = Inr (Some r) \<longrightarrow>
      p95 (network_latency r) = spec_percentile 95 20 (network_latency_samples s)
    \<and> p99 (network_latency r) = spec_percentile 99 100 (network_latency_samples s)
    \<and> p95 (execution_time r) = spec_percentile 95 20 (execution_time_samples s)
    \<and> p99 (execution_time r) = spec_percentile 99 100 (execution_time_samples s)
    \<and> p95 (total_latency r) = spec_percentile 95 20 (total_latency_samples s)
    \<and> p99 (total_latency r) = spec_percentile 99 100 (total_latency_samples s))
 \<and> ((\<exists>report. get_statistics s = Inr (Some report)) =
      (network_latency_samples s \<noteq> [] \<and> execution_time_samples s \<noteq> []
       \<and> total_latency_samples s \<noteq> []
       \<and> \<not> division_overflows (sum_list (network_latency_samples s))
              (int (length (network_latency_samples s)))
       \<and> \<not> division_overflows (sum_list (execution_time_samples s))
              (int (length (execution_time_samples s)))
       \<and> \<not> division_overflows (sum_list (total_latency_samples s))
              (int (length (total_latency_samples s)))))"
proof -
  have a: "p95 (network_latency r) = spec_percentile 95 20 (network_latency_samples s)
    \<and> p99 (network_latency r) = spec_percentile 99 100 (network_latency_samples s)
    \<and> p95 (execution_time r) = spec_percentile 95 20 (execution_time_samples s)
    \<and> p99 (execution_time r) = spec_percentile 99 100 (execution_time_samples s)
    \<and> p95 (total_latency r) = spec_percentile 95 20 (total_latency_samples s)
    \<and> p99 (total_latency r) = spec_percentile 99 100 (total_latency_samples s)"
    if "get_statistics s = Inr (Some r)"
  proof -
    have m: "metric_statistics (network_latency_samples s) = Inr (network_latency r)"
        "metric_statistics (execution_time_samples s) = Inr (execution_time r)"
        "metric_statistics (total_latency_samples s) = Inr (total_latency r)"
      using that by (simp_all add: get_statistics_report)
    show ?thesis
      using metric_statistics_percentiles [OF m(1)] metric_statistics_percentiles [OF m(2)]
        metric_statistics_percentiles [OF m(3)]
      by simp
  qed
  have b: "(\<exists>report. get_statistics s = Inr (Some report)) =
      ((\<exists>m. metric_statistics (network_latency_samples s) = Inr m)
       \<and> (\<exists>m. metric_statistics (execution_time_samples s) = Inr m)
       \<and> (\<exists>m. metric_statistics (total_latency_samples s) = Inr m))"
  proof
    assume "\<exists>report. get_statistics s = Inr (Some report)"
    then show "(\<exists>m. metric_statistics (network_latency_samples s) = Inr m)
       \<and> (\<exists>m. metric_statistics (execution_time_samples s) = Inr m)
       \<and> (\<exists>m. metric_statistics (total_latency_samples s) = Inr m)"
      by (auto simp: get_statistics_report)
  next
    assume "(\<exists>m. metric_statistics (network_latency_samples s) = Inr m)
       \<and> (\<exists>m. metric_statistics (execution_time_samples s) = Inr m)
       \<and> (\<exists>m. metric_statistics (total_latency_samples s) = Inr m)"
    then obtain x y z where m: "metric_statistics (network_latency_samples s) = Inr x"
        "metric_statistics (execution_time_samples s) = Inr y"
        "metric_statistics (total_latency_samples s) = Inr z"
      by blast
    have "network_latency_samples s \<noteq> []"
      using m(1) metric_statistics_returns [of "network_latency_samples s"] by blast
    then have "get_statistics s =
        Inr (Some \<lparr> network_latency = x, execution_time = y, total_latency = z \<rparr>)"
      using m by (simp add: get_statistics_def)
    then show "\<exists>report. get_statistics s = Inr (Some report)" by blast
  qed
  show ?thesis
    using a b by (auto simp only: metric_statistics_returns)
qed

theorem report_percentiles_witness:
  "(\<exists>report. get_statistics full_buffer = Inr (Some report)
     \<and> p95 (network_latency report) = 191 \<and> p99 (network_latency report) = 199
     \<and> p95 (execution_time report) = 7 \<and> p99 (execution_time report) = 7
     \<and> p95 (total_latency report) = 198 \<and> p99 (total_latency report) = 206)
 \<and> get_statistics huge_latency = Inl OverflowError"
proof -
  note b = buffers_after_add_samples
    [of "map (\<lambda>i. (i, int i, 7, int i + 7)) [1..<201]" 200, folded full_buffer_def]
  have n: "network_latency_samples full_buffer = map int [1..<201]"
    using b [THEN conjunct1] by (simp add: comp_def)
  have e: "execution_time_samples full_buffer = replicate 200 7"
    using b [THEN conjunct2, THEN conjunct1] by (simp add: comp_def map_replicate_const)
  have t: "total_latency_samples full_buffer = map (\<lambda>i. int i + 7) [1..<201]"
    using b [THEN conjunct2, THEN conjunct2] by (simp add: comp_def)
  have sn: "sum_list (network_latency_samples full_buffer) = 20100"
    unfolding n by code_simp
  have se: "sum_list (execution_time_samples full_buffer) = 1400"
    unfolding e by (simp add: sum_list_replicate)
  have st: "sum_list (total_latency_samples full_buffer) = 21500"
    unfolding t by code_simp
  have l: "length (network_latency_samples full_buffer) = 200"
      "length (execution_time_samples full_buffer) = 200"
      "length (total_latency_samples full_buffer) = 200"
    by (simp_all add: n e t)
  have ne: "network_latency_samples full_buffer \<noteq> []"
      "execution_time_samples full_buffer \<noteq> []" "total_latency_samples full_buffer \<noteq> []"
    using l by auto
  have ov: "\<not> division_overflows 20100 200" "\<not> division_overflows 1400 200"
      "\<not> division_overflows 21500 200"
    by (simp_all add: division_overflows_def FLOAT_OVERFLOW_def)
  have "\<exists>report. get_statistics full_buffer = Inr (Some report)"
    using report_percentiles [of full_buffer, THEN conjunct2] ne ov
    by (simp only: sn se st l) simp
  then obtain report where r: "get_statistics full_buffer = Inr (Some report)" by blast
  note p = report_percentiles [of full_buffer report, THEN conjunct1, THEN mp, OF r]
  have 1: "spec_percentile 95 20 (network_latency_samples full_buffer) = 191"
    unfolding n by (simp add: spec_percentile_sorted sorted_map_upt)
  have 2: "spec_percentile 99 100 (network_latency_samples full_buffer) = 199"
    unfolding n by (simp add: spec_percentile_sorted sorted_map_upt)
  have 3: "spec_percentile 95 20 (execution_time_samples full_buffer) = 7"
    unfolding e by (simp add: spec_percentile_sorted)
  have 4: "spec_percentile 99 100 (execution_time_samples full_buffer) = 7"
    unfolding e by (simp add: spec_percentile_sorted)
  have 5: "spec_percentile 95 20 (total_latency_samples full_buffer) = 198"
    unfolding t by (simp add: spec_percentile_sorted sorted_map_upt)
  have 6: "spec_percentile 99 100 (total_latency_samples full_buffer) = 206"
    unfolding t by (simp add: spec_percentile_sorted sorted_map_upt)
  have a: "\<exists>report. get_statistics full_buffer = Inr (Some report)
     \<and> p95 (network_latency report) = 191 \<and> p99 (network_latency report) = 199
     \<and> p95 (execution_time report) = 7 \<and> p99 (execution_time report) = 7
     \<and> p95 (total_latency report) = 198 \<and> p99 (total_latency report) = 206"
    using r p unfolding 1 2 3 4 5 6 by blast
  have b: "get_statistics huge_latency = Inl OverflowError"
    by (simp add: huge_latency_def add_sample_def SyncStats_init_def get_statistics_def
        metric_statistics_def division_overflows_def FLOAT_OVERFLOW_def Let_def)
  show ?thesis by (intro conjI a b)
qed

section \<open>SYNC messages\<close>

subsection \<open>Strings\<close>

lemma py_split_nosep: "c \<notin> set p \<Longrightarrow> py_split c p = [p]"
  by (induction p) auto

lemma py_split_append: "c \<notin> set p \<Longrightarrow> py_split c (p @ c # rest) = p # py_split c rest"
  by (induction p) auto

lemma py_split_join:
  assumes "parts \<noteq> []" "\<forall>p \<in> set parts. c \<notin> set p"
  shows "py_split c (py_join [c] parts) = parts"
  using assms
proof (induction "[c]" parts rule: py_join.induct)
  case 1
  then show ?case by simp
next
  case (2 p)
  then show ?case by (simp add: py_split_nosep)
next
  case (3 p q ps)
  then show ?case by (simp add: py_split_append)
qed

lemma py_split_max_append:
  "c \<notin> set p \<Longrightarrow> py_split_max c (Suc n) (p @ c # rest) = p # py_split_max c n rest"
  by (induction p) auto

lemma split_sync:
  assumes "CHR '':'' \<notin> set command_type"
  shows "py_split_max CHR '':'' 2 (''SYNC:'' @ command_type @ '':'' @ data_str) =
           [''SYNC'', command_type, data_str]"
proof -
  have "py_split_max CHR '':'' (Suc (Suc 0)) (''SYNC'' @ CHR '':'' # (command_type @ CHR '':'' # data_str))
      = ''SYNC'' # py_split_max CHR '':'' (Suc 0) (command_type @ CHR '':'' # data_str)"
    by (rule py_split_max_append) simp
  also have "py_split_max CHR '':'' (Suc 0) (command_type @ CHR '':'' # data_str) =
      command_type # py_split_max CHR '':'' 0 data_str"
    using assms by (rule py_split_max_append)
  finally show ?thesis by (simp add: numeral_2_eq_2)
qed

lemma dropWhile_id: "xs \<noteq> [] \<Longrightarrow> \<not> P (hd xs) \<Longrightarrow> dropWhile P xs = xs"
  by (cases xs) auto

lemma strip_id:
  assumes "m \<noteq> []" "\<not> P (hd m)" "\<not> P (last m)"
  shows "rev (dropWhile P (rev (dropWhile P m))) = m"
proof -
  have 1: "dropWhile P m = m" using assms(1,2) by (rule dropWhile_id)
  have "rev m \<noteq> []" "\<not> P (hd (rev m))" using assms(1,3) by (auto simp: hd_rev)
  then have 2: "dropWhile P (rev m) = rev m" by (rule dropWhile_id)
  show ?thesis by (simp add: 1 2)
qed

lemma py_strip_id:
  assumes "m \<noteq> []" "\<not> py_isspace (hd m)" "\<not> py_isspace (last m)"
  shows "py_strip m = m"
  unfolding py_strip_def using assms by (rule strip_id)

lemma int_strip_id:
  assumes "m \<noteq> []" "\<not> int_isspace (hd m)" "\<not> int_isspace (last m)"
  shows "int_strip m = m"
  unfolding int_strip_def using assms by (rule strip_id)

lemma py_join_snoc: "ps \<noteq> [] \<Longrightarrow> py_join sep (ps @ [q]) = py_join sep ps @ sep @ q"
  by (induction sep ps rule: py_join.induct) auto

text \<open>
  The decimal form of an integer of at most 4300 digits reads back as that integer.
\<close>

lemma digit_char_digit: "d < 10 \<Longrightarrow> is_digit (digit_char d) \<and> digit_val (digit_char d) = d"
proof -
  assume "d < 10"
  then have "d = 0 \<or> d = 1 \<or> d = 2 \<or> d = 3 \<or> d = 4 \<or> d = 5 \<or> d = 6 \<or> d = 7
      \<or> d = 8 \<or> d = 9"
    by arith
  then show ?thesis
    by (elim disjE) (simp_all add: digit_char_def is_digit_def digit_val_def)
qed

lemma str_nat_digits: "str_nat n \<noteq> [] \<and> (\<forall>c \<in> set (str_nat n). is_digit c)"
proof (induction n rule: str_nat.induct)
  case (1 n)
  show ?case
  proof (cases "n < 10")
    case True
    then show ?thesis using digit_char_digit [of n] by (simp add: str_nat.simps [of n])
  next
    case False
    have "n mod 10 < 10" by simp
    then show ?thesis using 1 False digit_char_digit [of "n mod 10"]
      by (simp add: str_nat.simps [of n])
  qed
qed

lemma str_nat_value:
  "foldl (\<lambda>a c. 10 * a + digit_val c) 0 (str_nat n) = n"
proof (induction n rule: str_nat.induct)
  case (1 n)
  show ?case
  proof (cases "n < 10")
    case True
    then show ?thesis using digit_char_digit [of n] by (simp add: str_nat.simps [of n])
  next
    case False
    have "n mod 10 < 10" by simp
    then show ?thesis using 1 False digit_char_digit [of "n mod 10"]
      by (simp add: str_nat.simps [of n])
  qed
qed

lemma dec_digits_all: "ds \<noteq> [] \<Longrightarrow> \<forall>c \<in> set ds. is_digit c \<Longrightarrow> dec_digits ds"
proof (induction ds rule: dec_digits.induct)
  case 1
  then show ?case by simp
next
  case (2 c)
  then show ?case by simp
next
  case (3 c d r)
  have "d \<noteq> CHR ''_''" using "3.prems"(2) by (auto simp: is_digit_def)
  then show ?case using 3 by simp
qed

lemma is_digit_not_underscore: "is_digit c \<Longrightarrow> c \<noteq> CHR ''_''"
  and is_digit_not_minus: "is_digit c \<Longrightarrow> c \<noteq> CHR ''-''"
  and is_digit_not_plus: "is_digit c \<Longrightarrow> c \<noteq> CHR ''+''"
  and is_digit_not_space: "is_digit c \<Longrightarrow> \<not> int_isspace c"
  by (auto simp: is_digit_def int_isspace_def Let_def)

lemma parse_digits_str_nat:
  assumes "length (str_nat n) \<le> MAX_STR_DIGITS"
  shows "parse_digits (str_nat n) = Some (int n)"
proof -
  have d: "str_nat n \<noteq> []" "\<forall>c \<in> set (str_nat n). is_digit c" using str_nat_digits by auto
  have "\<forall>c \<in> set (str_nat n). c \<noteq> CHR ''_''" using d(2) is_digit_not_underscore by blast
  then have "filter (\<lambda>c. c \<noteq> CHR ''_'') (str_nat n) = str_nat n"
    by (simp add: filter_id_conv)
  then show ?thesis using dec_digits_all [OF d] assms
    by (simp add: parse_digits_def str_nat_value)
qed

lemma int_strip_str_nat: "int_strip (str_nat n) = str_nat n"
proof -
  have d: "str_nat n \<noteq> []" "\<forall>c \<in> set (str_nat n). is_digit c" using str_nat_digits by auto
  have "is_digit (hd (str_nat n))" "is_digit (last (str_nat n))" using d by auto
  then have h: "\<not> int_isspace (hd (str_nat n))" "\<not> int_isspace (last (str_nat n))"
    by (auto dest: is_digit_not_space)
  show ?thesis using d(1) h by (rule int_strip_id)
qed

lemma int_strip_minus: "int_strip (CHR ''-'' # str_nat n) = CHR ''-'' # str_nat n"
proof -
  have d: "str_nat n \<noteq> []" "\<forall>c \<in> set (str_nat n). is_digit c" using str_nat_digits by auto
  have "is_digit (last (str_nat n))" using d by auto
  then have h: "\<not> int_isspace (last (str_nat n))" by (auto dest: is_digit_not_space)
  have m: "\<not> int_isspace (CHR ''-'')" by (simp add: int_isspace_def)
  show ?thesis
  proof (rule int_strip_id)
    show "CHR ''-'' # str_nat n \<noteq> []" by simp
    show "\<not> int_isspace (hd (CHR ''-'' # str_nat n))" using m by simp
    show "\<not> int_isspace (last (CHR ''-'' # str_nat n))" using h d(1) by simp
  qed
qed

lemma py_int_str_int:
  assumes "\<not> int_str_raises i"
  shows "py_int (str_int i) = Some i"
proof (cases "i < 0")
  case True
  then have l: "length (str_nat (nat (- i))) \<le> MAX_STR_DIGITS"
    using assms by (simp add: int_str_raises_def abs_if)
  have "py_int (CHR ''-'' # str_nat (nat (- i))) = map_option uminus (parse_digits (str_nat (nat (- i))))"
    unfolding py_int_def int_strip_minus by simp
  then show ?thesis using True
    by (simp add: str_int_def parse_digits_str_nat [OF l])
next
  case False
  then have l: "length (str_nat (nat i)) \<le> MAX_STR_DIGITS"
    using assms by (simp add: int_str_raises_def abs_if)
  have d: "str_nat (nat i) \<noteq> []" "\<forall>c \<in> set (str_nat (nat i)). is_digit c" using str_nat_digits by auto
  then obtain c r where cr: "str_nat (nat i) = c # r" by (cases "str_nat (nat i)") auto
  then have "is_digit c" using d(2) by simp
  then have c: "c \<noteq> CHR ''-''" "c \<noteq> CHR ''+''"
    using is_digit_not_minus is_digit_not_plus by auto
  have "py_int (str_nat (nat i)) = (case c # r of [] \<Rightarrow> None | c # r \<Rightarrow>
          if c = CHR ''-'' then map_option uminus (parse_digits r)
          else if c = CHR ''+'' then parse_digits r
          else parse_digits (c # r))"
    by (simp only: py_int_def int_strip_str_nat) (simp only: cr)
  also have "\<dots> = parse_digits (c # r)" using c by simp
  finally have "py_int (str_nat (nat i)) = Some (int (nat i))"
    using parse_digits_str_nat [OF l] cr by simp
  then show ?thesis using False by (simp add: str_int_def)
qed

text \<open>
  What arrives for a value that is an integer or a string is the value as the
  specification coerces it, and an integer arrives as itself.
\<close>

lemma coerce_int_or_str:
  assumes "int_or_str v" "\<not> str_raises v"
  shows "sent (coerce (py_str v)) = coerced v"
  using assms
  by (cases v) (auto simp: coerce_def coerced_def py_int_str_int split: option.splits)

lemma coerced_int:
  assumes "\<not> str_raises (IntO i)"
  shows "coerced (IntO i) = IntO i"
  using assms by (simp add: coerced_def py_int_str_int)

subsection \<open>Encoding and parsing\<close>

lemma map_add_upd_left:
  "M k = None \<Longrightarrow> (m(k \<mapsto> c)) ++ M = m ++ (M(k \<mapsto> c))"
  by (rule ext) (simp add: map_add_def split: option.splits)

lemma parse_pairs_items:
  assumes "distinct (map fst data)"
  shows "parse_pairs (concat (map (\<lambda>(key, value). [key, py_str value]) data)) (m, ts) =
     (m ++ map_of (map (\<lambda>(key, value). (key, coerce (py_str value))) data),
      case map_of (map (\<lambda>(key, value). (key, coerce (py_str value))) data) ''timestamp'' of
        None \<Rightarrow> ts | Some v \<Rightarrow> Some v)"
  using assms
proof (induction data arbitrary: m ts)
  case Nil
  then show ?case by simp
next
  case (Cons kv data)
  obtain k v where kv: "kv = (k, v)" by (cases kv) auto
  let ?g = "\<lambda>(key, value). (key, coerce (py_str value))"
  let ?M = "map_of (map ?g data)"
  have "k \<notin> fst ` set data" using Cons.prems kv by auto
  then have none: "?M k = None" by (auto simp: map_of_eq_None_iff image_iff)
  have d: "distinct (map fst data)" using Cons.prems by simp
  have "parse_pairs (concat (map (\<lambda>(key, value). [key, py_str value]) (kv # data))) (m, ts) =
      parse_pairs (concat (map (\<lambda>(key, value). [key, py_str value]) data))
        (m(k \<mapsto> coerce (py_str v)),
         if k = ''timestamp'' then Some (coerce (py_str v)) else ts)"
    by (simp add: kv Let_def del: fun_upd_apply)
  also have "\<dots> = ((m(k \<mapsto> coerce (py_str v))) ++ ?M,
      case ?M ''timestamp'' of
        None \<Rightarrow> (if k = ''timestamp'' then Some (coerce (py_str v)) else ts)
      | Some w \<Rightarrow> Some w)"
    by (rule Cons.IH [OF d])
  also have "(m(k \<mapsto> coerce (py_str v))) ++ ?M = m ++ map_of (map ?g (kv # data))"
    using none by (simp add: kv map_add_upd_left del: fun_upd_apply)
  also have "(case ?M ''timestamp'' of
        None \<Rightarrow> (if k = ''timestamp'' then Some (coerce (py_str v)) else ts)
      | Some w \<Rightarrow> Some w) =
      (case map_of (map ?g (kv # data)) ''timestamp'' of None \<Rightarrow> ts | Some w \<Rightarrow> Some w)"
    using none by (auto simp: kv split: option.splits)
  finally show ?case .
qed

lemma parts_wire_safe:
  assumes "\<forall>(key, value) \<in> set data. wire_safe key \<and> wire_safe (py_str value)"
  shows "\<forall>p \<in> set (concat (map (\<lambda>(key, value). [key, py_str value]) data)). CHR ''|'' \<notin> set p"
  using assms by (auto simp: wire_safe_def)

lemma message_strip:
  assumes "data \<noteq> [] \<longrightarrow> \<not> ends_in_space (py_str (snd (last data)))"
  shows "py_strip (sync_message command_type data) = sync_message command_type data"
proof (rule py_strip_id)
  show "sync_message command_type data \<noteq> []" by (simp add: sync_message_def Let_def)
  show "\<not> py_isspace (hd (sync_message command_type data))"
    by (simp add: sync_message_def Let_def py_isspace_def)
  show "\<not> py_isspace (last (sync_message command_type data))"
  proof (cases "data = []")
    case True
    then show ?thesis by (simp add: sync_message_def py_isspace_def)
  next
    case False
    then obtain d0 kv where d: "data = d0 @ [kv]" by (metis rev_exhaust)
    obtain k v where kv: "kv = (k, v)" by (cases kv) auto
    let ?f = "\<lambda>(key, value). [key, py_str value]"
    have eq: "concat (map ?f data) = (concat (map ?f d0) @ [k]) @ [py_str v]"
      by (simp add: d kv)
    have ne: "concat (map ?f d0) @ [k] \<noteq> []" by simp
    have j: "py_join ''|'' (concat (map ?f data)) =
        py_join ''|'' (concat (map ?f d0) @ [k]) @ ''|'' @ py_str v"
      unfolding eq by (rule py_join_snoc [OF ne])
    have nsp: "\<not> ends_in_space (py_str v)" using assms d kv by simp
    show ?thesis
    proof (cases "py_str v = []")
      case True
      then show ?thesis using False j by (simp add: sync_message_def py_isspace_def)
    next
      case False
      then show ?thesis using \<open>data \<noteq> []\<close> j nsp
        by (simp add: sync_message_def ends_in_space_def)
    qed
  qed
qed

lemmas py_eval = parse_sync_message_def py_strip_def py_isspace_def coerce_def py_int_def
  int_strip_def int_isspace_def parse_digits_def MAX_STR_DIGITS_def is_digit_def digit_val_def
  Let_def numeral_2_eq_2

lemmas handler_eval = handle_sync_command_def execute_buzz_def track_sequence_def dict_get_def
  network_latency_us_def record_sample_def activate_motors_def emit_def secondary_idle_def
  app_init_def quiet_def

text \<open>
  Claim C5 as stated fails, in two ways. The value "USER " of the key reason contains no
  pipe, colon or EOT and does not parse as an integer, so the decoded value should be
  "USER " again; the handler strips the message before it splits it, and the decoded value
  is "USER". The float 23.5 has the string "23.5", which contains none of the three
  characters and does not parse as an integer, so the decoded value should be the float;
  it is the string "23.5".
\<close>

theorem sync_roundtrip_loses_trailing_space:
  "send_sync_command primary_linked ''STOP_SESSION'' [(''reason'', StrO ''USER '')] =
     Some ''SYNC:STOP_SESSION:reason|USER ''
 \<and> wire_safe ''reason'' \<and> wire_safe (py_str (StrO ''USER ''))
 \<and> coerced (StrO ''USER '') = StrO ''USER ''
 \<and> parse_sync_message ''SYNC:STOP_SESSION:reason|USER '' =
     Some (''STOP_SESSION'', [''reason'' \<mapsto> StrV ''USER''], None)
 \<and> sent (StrV ''USER'') \<noteq> StrO ''USER ''
 \<and> send_sync_command primary_linked ''START_SESSION'' [(''jitter'', FloatO ''23.5'')] =
     Some ''SYNC:START_SESSION:jitter|23.5''
 \<and> wire_safe ''jitter'' \<and> wire_safe (py_str (FloatO ''23.5''))
 \<and> coerced (FloatO ''23.5'') = FloatO ''23.5''
 \<and> parse_sync_message ''SYNC:START_SESSION:jitter|23.5'' =
     Some (''START_SESSION'', [''jitter'' \<mapsto> StrV ''23.5''], None)
 \<and> sent (StrV ''23.5'') \<noteq> FloatO ''23.5''"
proof -
  have 1: "send_sync_command primary_linked ''STOP_SESSION'' [(''reason'', StrO ''USER '')] =
     Some ''SYNC:STOP_SESSION:reason|USER ''"
    by (simp add: send_sync_command_def primary_linked_def app_init_def sync_message_def)
  have 2: "wire_safe ''reason''" "wire_safe (py_str (StrO ''USER ''))"
    by (simp_all add: wire_safe_def)
  have 3: "coerced (StrO ''USER '') = StrO ''USER ''" by (simp add: coerced_def py_eval)
  have 4: "parse_sync_message ''SYNC:STOP_SESSION:reason|USER '' =
     Some (''STOP_SESSION'', [''reason'' \<mapsto> StrV ''USER''], None)"
    by (simp add: py_eval)
  have 5: "sent (StrV ''USER'') \<noteq> StrO ''USER ''" by simp
  have 6: "send_sync_command primary_linked ''START_SESSION'' [(''jitter'', FloatO ''23.5'')] =
     Some ''SYNC:START_SESSION:jitter|23.5''"
    by (simp add: send_sync_command_def primary_linked_def app_init_def sync_message_def)
  have 7: "wire_safe ''jitter''" "wire_safe (py_str (FloatO ''23.5''))"
    by (simp_all add: wire_safe_def)
  have 8: "coerced (FloatO ''23.5'') = FloatO ''23.5''" by (simp add: coerced_def py_eval)
  have 9: "parse_sync_message ''SYNC:START_SESSION:jitter|23.5'' =
     Some (''START_SESSION'', [''jitter'' \<mapsto> StrV ''23.5''], None)"
    by (simp add: py_eval)
  have 10: "sent (StrV ''23.5'') \<noteq> FloatO ''23.5''" by simp
  show ?thesis by (intro conjI 1 2 3 4 5 6 7 8 9 10)
qed

text \<open>
  Claim C5, amended. For every command type (a name without a colon) and every data map
  with distinct keys whose keys and stringified values contain no pipe, colon or EOT and
  whose last value does not end in white space as a string, the message that the PRIMARY
  sends is parsed by the SECONDARY's handler into the same command type and a data map
  with the same keys, in which every value is the string of the original value, as an
  integer when that string parses as one; the captured time stamp is the value of the key
  timestamp. So a value that is an integer or a string arrives equal to the original, with
  a string that parses as an integer coerced to that integer, and an integer arrives as
  itself; a value of another type (a float, a boolean, \<^verbatim>\<open>None\<close>) arrives as its
  string, not as the original.
\<close>

theorem sync_roundtrip:
  assumes "send_sync_command s command_type data = Some message"
      and "CHR '':'' \<notin> set command_type"
      and "distinct (map fst data)"
      and "\<forall>(key, value) \<in> set data. wire_safe key \<and> wire_safe (py_str value)"
      and "data \<noteq> [] \<longrightarrow> \<not> ends_in_space (py_str (snd (last data)))"
  shows "parse_sync_message message =
           Some (command_type,
                 map_of (map (\<lambda>(key, value). (key, coerce (py_str value))) data),
                 map_of (map (\<lambda>(key, value). (key, coerce (py_str value))) data) ''timestamp'')
       \<and> (\<forall>(key, value) \<in> set data.
             int_or_str value \<longrightarrow> sent (coerce (py_str value)) = coerced value)
       \<and> (\<forall>(key, value) \<in> set data. \<forall>i. value = IntO i \<longrightarrow> coerced value = value)"
proof -
  let ?f = "\<lambda>(key, value). [key, py_str value]"
  let ?parts = "concat (map ?f data)"
  let ?data_str = "if data \<noteq> [] then py_join ''|'' ?parts else []"
  have m: "message = sync_message command_type data"
    using assms(1) by (simp add: send_sync_command_def split: if_splits)
  have nr: "\<forall>(key, value) \<in> set data. \<not> str_raises value"
    using assms(1) by (auto simp: send_sync_command_def list_ex_iff split: if_splits)
  have m2: "sync_message command_type data = ''SYNC:'' @ command_type @ '':'' @ ?data_str"
    by (simp add: sync_message_def Let_def)
  have "py_strip message = ''SYNC:'' @ command_type @ '':'' @ ?data_str"
    using m message_strip [OF assms(5), of command_type] m2 by simp
  then have sp: "py_split_max CHR '':'' 2 (py_strip message) = [''SYNC'', command_type, ?data_str]"
    using split_sync [OF assms(2), of ?data_str] by simp
  have a: "parse_sync_message message =
           Some (command_type,
                 map_of (map (\<lambda>(key, value). (key, coerce (py_str value))) data),
                 map_of (map (\<lambda>(key, value). (key, coerce (py_str value))) data) ''timestamp'')"
  proof (cases "data = []")
    case True
    then show ?thesis using sp by (simp add: parse_sync_message_def Let_def)
  next
    case False
    then obtain kv d1 where "data = kv # d1" by (cases data) auto
    then have pne: "?parts \<noteq> []" by (cases kv) auto
    have two: "\<exists>a b r. ?parts = a # b # r" using \<open>data = kv # d1\<close> by (cases kv) auto
    have split: "py_split CHR ''|'' (py_join ''|'' ?parts) = ?parts"
      using pne parts_wire_safe [OF assms(4)] by (rule py_split_join)
    have ne: "py_join ''|'' ?parts \<noteq> []"
      using two by auto
    have pp: "parse_pairs ?parts (Map.empty, None) =
        (map_of (map (\<lambda>(key, value). (key, coerce (py_str value))) data),
         map_of (map (\<lambda>(key, value). (key, coerce (py_str value))) data) ''timestamp'')"
      using parse_pairs_items [OF assms(3), of Map.empty None]
      by (simp split: option.splits)
    show ?thesis using sp False split ne pp
      by (simp add: parse_sync_message_def Let_def)
  qed
  have b: "\<forall>(key, value) \<in> set data.
             int_or_str value \<longrightarrow> sent (coerce (py_str value)) = coerced value"
    using nr coerce_int_or_str by blast
  have c: "\<forall>(key, value) \<in> set data. \<forall>i. value = IntO i \<longrightarrow> coerced value = value"
    using nr coerced_int by blast
  show ?thesis by (intro conjI a b c)
qed

theorem sync_roundtrip_witness:
  "send_sync_command primary_linked ''EXECUTE_BUZZ'' buzz_items =
     Some ''SYNC:EXECUTE_BUZZ:left_finger|2|amplitude|75|pattern|rndp|seq|12|jitter|23.5''
 \<and> parse_sync_message
      ''SYNC:EXECUTE_BUZZ:left_finger|2|amplitude|75|pattern|rndp|seq|12|jitter|23.5'' =
     Some (''EXECUTE_BUZZ'',
           [''left_finger'' \<mapsto> IntV 2, ''amplitude'' \<mapsto> IntV 75, ''pattern'' \<mapsto> StrV ''rndp'',
            ''seq'' \<mapsto> IntV 12, ''jitter'' \<mapsto> StrV ''23.5''],
           None)
 \<and> coerced (IntO 2) = IntO 2 \<and> coerced (StrO ''rndp'') = StrO ''rndp''
 \<and> coerced (StrO ''12'') = IntO 12"
proof -
  let ?m = "''SYNC:EXECUTE_BUZZ:left_finger|2|amplitude|75|pattern|rndp|seq|12|jitter|23.5''"
  have 1: "send_sync_command primary_linked ''EXECUTE_BUZZ'' buzz_items = Some ?m"
    by (simp add: send_sync_command_def primary_linked_def app_init_def sync_message_def
        buzz_items_def str_int_def str_nat.simps digit_char_def int_str_raises_def
        MAX_STR_DIGITS_def)
  have 2: "CHR '':'' \<notin> set ''EXECUTE_BUZZ''" by simp
  have 3: "distinct (map fst buzz_items)" by (simp add: buzz_items_def)
  have 4: "\<forall>(key, value) \<in> set buzz_items. wire_safe key \<and> wire_safe (py_str value)"
    by (simp add: buzz_items_def wire_safe_def str_int_def str_nat.simps digit_char_def)
  have 5: "buzz_items \<noteq> [] \<longrightarrow> \<not> ends_in_space (py_str (snd (last buzz_items)))"
    by (simp add: buzz_items_def ends_in_space_def py_isspace_def)
  note t = sync_roundtrip [where s = primary_linked, OF 1 2 3 4 5]
  have v: "coerce (str_int 2) = IntV 2" "coerce (str_int 75) = IntV 75"
      "coerce ''rndp'' = StrV ''rndp''" "coerce ''12'' = IntV 12" "coerce ''23.5'' = StrV ''23.5''"
    by (simp_all add: py_eval str_int_def str_nat.simps digit_char_def)
  have d: "map_of (map (\<lambda>(key, value). (key, coerce (py_str value))) buzz_items) =
      [''left_finger'' \<mapsto> IntV 2, ''amplitude'' \<mapsto> IntV 75, ''pattern'' \<mapsto> StrV ''rndp'',
       ''seq'' \<mapsto> IntV 12, ''jitter'' \<mapsto> StrV ''23.5'']"
    by (rule ext) (simp add: buzz_items_def v)
  have ts: "[''left_finger'' \<mapsto> IntV 2, ''amplitude'' \<mapsto> IntV 75, ''pattern'' \<mapsto> StrV ''rndp'',
       ''seq'' \<mapsto> IntV 12, ''jitter'' \<mapsto> StrV ''23.5''] ''timestamp'' = None"
    by simp
  have a: "parse_sync_message ?m =
     Some (''EXECUTE_BUZZ'',
           [''left_finger'' \<mapsto> IntV 2, ''amplitude'' \<mapsto> IntV 75, ''pattern'' \<mapsto> StrV ''rndp'',
            ''seq'' \<mapsto> IntV 12, ''jitter'' \<mapsto> StrV ''23.5''],
           None)"
    using t [THEN conjunct1] unfolding d ts .
  have b: "coerced (IntO 2) = IntO 2"
    using t [THEN conjunct2, THEN conjunct2] by (simp add: buzz_items_def)
  have c: "coerced (StrO ''rndp'') = StrO ''rndp''" "coerced (StrO ''12'') = IntO 12"
    using t [THEN conjunct2, THEN conjunct1] v by (simp_all add: buzz_items_def)
  show ?thesis by (intro conjI 1 a b c)
qed

subsection \<open>Sequence gaps\<close>

lemma gap_warnings_emit:
  "gap_warnings (emit es s) =
     gap_warnings s @ concat (map (\<lambda>e. case e of Log (Sequence_gap g) \<Rightarrow> [g] | _ \<Rightarrow> []) es)"
  by (simp add: gap_warnings_def emit_def)

lemma after_sequence_tracking:
  shows "missed_commands (case network_latency_us env ts st of
             None \<Rightarrow> emit [Log Failed_to_handle_sync] st
           | Some latency \<Rightarrow> record_sample env latency (activate_motors env data st)) =
         missed_commands st"
    and "last_received_seq (case network_latency_us env ts st of
             None \<Rightarrow> emit [Log Failed_to_handle_sync] st
           | Some latency \<Rightarrow> record_sample env latency (activate_motors env data st)) =
         last_received_seq st"
    and "gap_warnings (case network_latency_us env ts st of
             None \<Rightarrow> emit [Log Failed_to_handle_sync] st
           | Some latency \<Rightarrow> record_sample env latency (activate_motors env data st)) =
         gap_warnings st"
  by (auto simp: record_sample_def activate_motors_def emit_def gap_warnings_def Let_def
      split: option.splits)

lemma execute_buzz_sequence:
  assumes "data ''seq'' = Some (IntV seq)" "0 \<le> seq"
  shows "missed_commands (execute_buzz env data ts s) =
           missed_commands s + (if seq > last_received_seq s + 1 \<and> last_received_seq s \<ge> 0
                                then seq - last_received_seq s - 1 else 0)"
    and "gap_warnings (execute_buzz env data ts s) =
           gap_warnings s @ (if seq > last_received_seq s + 1 \<and> last_received_seq s \<ge> 0
                             then [seq - last_received_seq s - 1] else [])"
    and "last_received_seq (execute_buzz env data ts s) = seq"
proof -
  let ?gap = "seq > last_received_seq s + 1 \<and> last_received_seq s \<ge> 0"
  let ?sa = "(if ?gap
              then emit [Log (Sequence_gap (seq - last_received_seq s - 1))]
                     (s\<lparr>missed_commands := missed_commands s + (seq - last_received_seq s - 1)\<rparr>)
              else s)\<lparr>last_received_seq := seq\<rparr>"
  have t: "track_sequence (dict_get data ''seq'' (IntV (- 1))) s = Some ?sa"
    using assms by (simp add: track_sequence_def dict_get_def)
  have e: "execute_buzz env data ts s =
      (case network_latency_us env ts ?sa of
             None \<Rightarrow> emit [Log Failed_to_handle_sync] ?sa
           | Some latency \<Rightarrow> record_sample env latency (activate_motors env data ?sa))"
    by (simp only: execute_buzz_def t option.case)
  have 1: "missed_commands ?sa = missed_commands s + (if ?gap then seq - last_received_seq s - 1 else 0)"
    by (simp add: emit_def)
  have 2: "gap_warnings ?sa = gap_warnings s @ (if ?gap then [seq - last_received_seq s - 1] else [])"
    by (simp add: emit_def gap_warnings_def)
  have 3: "last_received_seq ?sa = seq" by simp
  show "missed_commands (execute_buzz env data ts s) =
           missed_commands s + (if ?gap then seq - last_received_seq s - 1 else 0)"
    unfolding e using after_sequence_tracking(1) [where st = ?sa and env = env and ts = ts and data = data] 1 by simp
  show "gap_warnings (execute_buzz env data ts s) =
           gap_warnings s @ (if ?gap then [seq - last_received_seq s - 1] else [])"
    unfolding e using after_sequence_tracking(3) [where st = ?sa and env = env and ts = ts and data = data] 2 by simp
  show "last_received_seq (execute_buzz env data ts s) = seq"
    unfolding e using after_sequence_tracking(2) [where st = ?sa and env = env and ts = ts and data = data] 3 by simp
qed

lemma handle_execute_buzz:
  assumes "parse_sync_message message = Some (''EXECUTE_BUZZ'', data, ts)"
  shows "handle_sync_command env message s =
           execute_buzz env data ts (s\<lparr>last_sync_command_received := Some (t_command env)\<rparr>)"
  using assms by (simp add: handle_sync_command_def)

text \<open>
  Claim C2 as stated fails. The message below carries the seq value -5; the claim says
  that the last seen sequence number is then -5. The code updates it only under the guard
  \<^verbatim>\<open>seq >= 0\<close>, and it stays at its initial value -1.
\<close>

theorem negative_seq_not_recorded:
  "parse_sync_message ''SYNC:EXECUTE_BUZZ:seq|-5'' =
     Some (''EXECUTE_BUZZ'', [''seq'' \<mapsto> IntV (- 5)], None)
 \<and> last_received_seq (handle_sync_command quiet ''SYNC:EXECUTE_BUZZ:seq|-5'' secondary_idle) = - 1"
proof -
  have 1: "parse_sync_message ''SYNC:EXECUTE_BUZZ:seq|-5'' =
     Some (''EXECUTE_BUZZ'', [''seq'' \<mapsto> IntV (- 5)], None)"
    by (simp add: py_eval)
  have 2: "last_received_seq
      (handle_sync_command quiet ''SYNC:EXECUTE_BUZZ:seq|-5'' secondary_idle) = - 1"
    by (simp add: 1 handler_eval Let_def)
  show ?thesis by (intro conjI 1 2)
qed

text \<open>
  Claim C2, amended. On the SECONDARY, for every received EXECUTE\_BUZZ message that
  carries an integer seq value that is not negative: the count of missed commands grows by
  \<open>seq - last - 1\<close> exactly when \<open>seq > last + 1\<close> and \<open>last \<ge> 0\<close> (and is unchanged
  otherwise), exactly one warning is printed for such a gap (and none otherwise), and the
  last seen sequence number becomes \<open>seq\<close>. In particular, a message with seq 0 followed
  by a message with seq 3 adds 2 to the count and prints one warning.
\<close>

theorem sequence_gap_tracking:
  assumes "parse_sync_message message = Some (''EXECUTE_BUZZ'', data, ts)"
      and "data ''seq'' = Some (IntV seq)" and "0 \<le> seq"
  shows "missed_commands (handle_sync_command env message s) =
           missed_commands s + (if seq > last_received_seq s + 1 \<and> last_received_seq s \<ge> 0
                                then seq - last_received_seq s - 1 else 0)
       \<and> gap_warnings (handle_sync_command env message s) =
           gap_warnings s @ (if seq > last_received_seq s + 1 \<and> last_received_seq s \<ge> 0
                             then [seq - last_received_seq s - 1] else [])
       \<and> last_received_seq (handle_sync_command env message s) = seq
       \<and> (seq = 0 \<and> parse_sync_message message' = Some (''EXECUTE_BUZZ'', data', ts')
            \<and> data' ''seq'' = Some (IntV 3) \<longrightarrow>
            missed_commands (handle_sync_command env' message' (handle_sync_command env message s)) =
              missed_commands s + 2
          \<and> gap_warnings (handle_sync_command env' message' (handle_sync_command env message s)) =
              gap_warnings s @ [2])"
proof -
  let ?sc = "s\<lparr>last_sync_command_received := Some (t_command env)\<rparr>"
  let ?h = "handle_sync_command env message s"
  have h: "?h = execute_buzz env data ts ?sc" using assms(1) by (rule handle_execute_buzz)
  have gw: "gap_warnings ?sc = gap_warnings s" by (simp add: gap_warnings_def)
  note eb = execute_buzz_sequence [where data = data and seq = seq and env = env and ts = ts and s = ?sc, OF assms(2,3)]
  have a: "missed_commands ?h =
           missed_commands s + (if seq > last_received_seq s + 1 \<and> last_received_seq s \<ge> 0
                                then seq - last_received_seq s - 1 else 0)"
    using eb(1) h by simp
  have b: "gap_warnings ?h =
           gap_warnings s @ (if seq > last_received_seq s + 1 \<and> last_received_seq s \<ge> 0
                             then [seq - last_received_seq s - 1] else [])"
    using eb(2) h gw by simp
  have c: "last_received_seq ?h = seq" using eb(3) h by simp
  have d: "missed_commands (handle_sync_command env' message' ?h) = missed_commands s + 2
          \<and> gap_warnings (handle_sync_command env' message' ?h) = gap_warnings s @ [2]"
    if z: "seq = 0" and p: "parse_sync_message message' = Some (''EXECUTE_BUZZ'', data', ts')"
      and q: "data' ''seq'' = Some (IntV 3)"
  proof -
    let ?hc = "?h\<lparr>last_sync_command_received := Some (t_command env')\<rparr>"
    have h': "handle_sync_command env' message' ?h = execute_buzz env' data' ts' ?hc"
      using p by (rule handle_execute_buzz)
    have gw': "gap_warnings ?hc = gap_warnings ?h" by (simp add: gap_warnings_def)
    have three: "(0::int) \<le> 3" by simp
    note eb' = execute_buzz_sequence [where data = data' and seq = 3 and env = env' and ts = ts' and s = ?hc, OF q three]
    have m0: "missed_commands ?h = missed_commands s" using a z by auto
    have g0: "gap_warnings ?h = gap_warnings s" using b z by auto
    have l0: "last_received_seq ?h = 0" using c z by simp
    show ?thesis using eb'(1,2) h' gw' m0 g0 l0 by simp
  qed
  show ?thesis using a b c d by blast
qed

theorem sequence_gap_tracking_witness:
  "parse_sync_message buzz_seq_0 =
     Some (''EXECUTE_BUZZ'',
           [''left_finger'' \<mapsto> IntV 2, ''right_finger'' \<mapsto> IntV 2, ''amplitude'' \<mapsto> IntV 75,
            ''seq'' \<mapsto> IntV 0, ''timestamp'' \<mapsto> IntV 200],
           Some (IntV 200))
 \<and> parse_sync_message buzz_seq_3 =
     Some (''EXECUTE_BUZZ'',
           [''left_finger'' \<mapsto> IntV 1, ''right_finger'' \<mapsto> IntV 1, ''amplitude'' \<mapsto> IntV 75,
            ''seq'' \<mapsto> IntV 3, ''timestamp'' \<mapsto> IntV 900],
           Some (IntV 900))
 \<and> last_received_seq (handle_sync_command quiet buzz_seq_0 secondary_idle) = 0
 \<and> missed_commands
      (handle_sync_command quiet buzz_seq_3 (handle_sync_command quiet buzz_seq_0 secondary_idle)) =
     missed_commands secondary_idle + 2
 \<and> gap_warnings
      (handle_sync_command quiet buzz_seq_3 (handle_sync_command quiet buzz_seq_0 secondary_idle)) =
     gap_warnings secondary_idle @ [2]"
proof -
  let ?da = "[''left_finger'' \<mapsto> IntV 2, ''right_finger'' \<mapsto> IntV 2, ''amplitude'' \<mapsto> IntV 75,
            ''seq'' \<mapsto> IntV 0, ''timestamp'' \<mapsto> IntV 200]"
  let ?db = "[''left_finger'' \<mapsto> IntV 1, ''right_finger'' \<mapsto> IntV 1, ''amplitude'' \<mapsto> IntV 75,
            ''seq'' \<mapsto> IntV 3, ''timestamp'' \<mapsto> IntV 900]"
  have 1: "parse_sync_message buzz_seq_0 = Some (''EXECUTE_BUZZ'', ?da, Some (IntV 200))"
    by (simp add: buzz_seq_0_def py_eval)
  have 2: "parse_sync_message buzz_seq_3 = Some (''EXECUTE_BUZZ'', ?db, Some (IntV 900))"
    by (simp add: buzz_seq_3_def py_eval)
  have 3: "?da ''seq'' = Some (IntV 0)" by simp
  have 4: "?db ''seq'' = Some (IntV 3)" by simp
  have 5: "(0::int) \<le> 0" by simp
  have 6: "(0::int) = 0" by simp
  note t = sequence_gap_tracking [where message = buzz_seq_0 and data = ?da
      and ts = "Some (IntV 200)" and seq = 0 and env = quiet and s = secondary_idle
      and message' = buzz_seq_3 and data' = ?db and ts' = "Some (IntV 900)" and env' = quiet,
      OF 1 3 5]
  have a: "last_received_seq (handle_sync_command quiet buzz_seq_0 secondary_idle) = 0"
    by (rule t [THEN conjunct2, THEN conjunct2, THEN conjunct1])
  have b: "missed_commands
      (handle_sync_command quiet buzz_seq_3 (handle_sync_command quiet buzz_seq_0 secondary_idle)) =
     missed_commands secondary_idle + 2
    \<and> gap_warnings
      (handle_sync_command quiet buzz_seq_3 (handle_sync_command quiet buzz_seq_0 secondary_idle)) =
     gap_warnings secondary_idle @ [2]"
    by (rule mp [OF t [THEN conjunct2, THEN conjunct2, THEN conjunct2]]) (intro conjI 6 2 4)
  show ?thesis by (intro conjI 1 2 a b [THEN conjunct1] b [THEN conjunct2])
qed

subsection \<open>Unknown commands and missing keys\<close>

lemma haptic_calls_emit:
  "filter is_haptic_call (trace (emit es s)) = filter is_haptic_call (trace s) @ filter is_haptic_call es"
  by (simp add: emit_def)

text \<open>
  Claim C4 as stated fails. The message below is an EXECUTE\_BUZZ without the keys
  left\_finger, right\_finger and amplitude, so according to the claim it activates no
  actuator. The code reads the missing keys with the defaults 0, 0 and 100 and makes both
  \<^verbatim>\<open>activate\<close> calls.
\<close>

theorem missing_keys_activate_defaults:
  "parse_sync_message ''SYNC:EXECUTE_BUZZ:seq|4'' =
     Some (''EXECUTE_BUZZ'', [''seq'' \<mapsto> IntV 4], None)
 \<and> filter is_haptic_call
      (trace (handle_sync_command quiet ''SYNC:EXECUTE_BUZZ:seq|4'' secondary_idle)) =
     [Haptic_activate (IntV 0) (IntV 100), Haptic_activate (IntV 0) (IntV 100)]"
proof -
  have 1: "parse_sync_message ''SYNC:EXECUTE_BUZZ:seq|4'' =
     Some (''EXECUTE_BUZZ'', [''seq'' \<mapsto> IntV 4], None)"
    by (simp add: py_eval)
  have 2: "filter is_haptic_call
      (trace (handle_sync_command quiet ''SYNC:EXECUTE_BUZZ:seq|4'' secondary_idle)) =
     [Haptic_activate (IntV 0) (IntV 100), Haptic_activate (IntV 0) (IntV 100)]"
    by (simp add: 1 handler_eval Let_def)
  show ?thesis by (intro conjI 1 2)
qed

text \<open>
  Claim C4, amended. On the SECONDARY, a SYNC message with an unknown command is dropped:
  handling it returns normally, calls no collaborator, and changes nothing but the time
  stamp of the last SYNC command; it is logged only when debug output is enabled. A
  message with missing data keys is not dropped, a missing key reads as its default: an
  EXECUTE\_BUZZ makes both \<^verbatim>\<open>activate\<close> calls, with 0 for a missing finger and 100 for a
  missing amplitude, and makes no call on the haptic controller exactly when the handler
  raises before the activation. That is when the seq value is a string, or, statistics
  being collected, when the time stamp is a string that is not empty or, with debug output
  on, an integer other than 0 that gives a latency of more than 4300 digits. (The model of
  the handler is a total function: every exception raised in the handler is caught in it,
  so handling a message never aborts the receive loop.)
\<close>

theorem unknown_command_dropped:
  "(parse_sync_message message = Some (command_type, data, ts) \<and> command_type \<notin> sync_commands
      \<longrightarrow> handle_sync_command env message s =
            emit (if debug_enabled env then [Log (Unknown_sync_command command_type)] else [])
              (s\<lparr>last_sync_command_received := Some (t_command env)\<rparr>))
 \<and> (parse_sync_message message' = Some (''EXECUTE_BUZZ'', data', ts')
      \<longrightarrow> filter is_haptic_call (trace (handle_sync_command env' message' s')) =
            filter is_haptic_call (trace s')
            @ (if (case data' ''seq'' of Some (StrV x) \<Rightarrow> True | _ \<Rightarrow> False)
                  \<or> (sync_stats s' \<noteq> None
                      \<and> (case ts' of
                            None \<Rightarrow> False
                          | Some (StrV x) \<Rightarrow> x \<noteq> []
                          | Some (IntV t) \<Rightarrow>
                              t \<noteq> 0 \<and> debug_enabled env'
                              \<and> int_str_raises (t_receive env' div 1000 - t)))
               then []
               else [Haptic_activate (dict_get data' ''left_finger'' (IntV 0))
                       (dict_get data' ''amplitude'' (IntV 100)),
                     Haptic_activate (dict_get data' ''right_finger'' (IntV 0))
                       (dict_get data' ''amplitude'' (IntV 100))]))"
proof -
  have a: "handle_sync_command env message s =
            emit (if debug_enabled env then [Log (Unknown_sync_command command_type)] else [])
              (s\<lparr>last_sync_command_received := Some (t_command env)\<rparr>)"
    if "parse_sync_message message = Some (command_type, data, ts)" "command_type \<notin> sync_commands"
    using that by (simp add: handle_sync_command_def sync_commands_def)
  have b: "filter is_haptic_call (trace (handle_sync_command env' message' s')) =
            filter is_haptic_call (trace s')
            @ (if (case data' ''seq'' of Some (StrV x) \<Rightarrow> True | _ \<Rightarrow> False)
                  \<or> (sync_stats s' \<noteq> None
                      \<and> (case ts' of
                            None \<Rightarrow> False
                          | Some (StrV x) \<Rightarrow> x \<noteq> []
                          | Some (IntV t) \<Rightarrow>
                              t \<noteq> 0 \<and> debug_enabled env'
                              \<and> int_str_raises (t_receive env' div 1000 - t)))
               then []
               else [Haptic_activate (dict_get data' ''left_finger'' (IntV 0))
                       (dict_get data' ''amplitude'' (IntV 100)),
                     Haptic_activate (dict_get data' ''right_finger'' (IntV 0))
                       (dict_get data' ''amplitude'' (IntV 100))])"
    if p: "parse_sync_message message' = Some (''EXECUTE_BUZZ'', data', ts')"
  proof -
    let ?sc = "s'\<lparr>last_sync_command_received := Some (t_command env')\<rparr>"
    let ?seq_fails = "case data' ''seq'' of Some (StrV x) \<Rightarrow> True | _ \<Rightarrow> False"
    let ?ts_fails = "sync_stats s' \<noteq> None
                      \<and> (case ts' of
                            None \<Rightarrow> False
                          | Some (StrV x) \<Rightarrow> x \<noteq> []
                          | Some (IntV t) \<Rightarrow>
                              t \<noteq> 0 \<and> debug_enabled env'
                              \<and> int_str_raises (t_receive env' div 1000 - t))"
    have h: "handle_sync_command env' message' s' = execute_buzz env' data' ts' ?sc"
      using p by (rule handle_execute_buzz)
    show ?thesis
    proof (cases ?seq_fails)
      case True
      then have "track_sequence (dict_get data' ''seq'' (IntV (- 1))) ?sc = None"
        by (auto simp: track_sequence_def dict_get_def split: option.splits pyval.splits)
      then have "execute_buzz env' data' ts' ?sc = emit [Log Failed_to_handle_sync] ?sc"
        by (simp add: execute_buzz_def)
      then show ?thesis using h True by (simp add: haptic_calls_emit)
    next
      case False
      then have "\<exists>sa. track_sequence (dict_get data' ''seq'' (IntV (- 1))) ?sc = Some sa
          \<and> filter is_haptic_call (trace sa) = filter is_haptic_call (trace s')
          \<and> sync_stats sa = sync_stats s'"
        by (auto simp: track_sequence_def dict_get_def emit_def
            split: option.splits pyval.splits)
      then obtain sa where t: "track_sequence (dict_get data' ''seq'' (IntV (- 1))) ?sc = Some sa"
        and tr: "filter is_haptic_call (trace sa) = filter is_haptic_call (trace s')"
        and st: "sync_stats sa = sync_stats s'"
        by blast
      have e: "execute_buzz env' data' ts' ?sc =
          (case network_latency_us env' ts' sa of
             None \<Rightarrow> emit [Log Failed_to_handle_sync] sa
           | Some latency \<Rightarrow> record_sample env' latency (activate_motors env' data' sa))"
        by (simp add: execute_buzz_def t)
      have l: "(network_latency_us env' ts' sa = None) = ?ts_fails"
        using st by (auto simp: network_latency_us_def split: option.splits pyval.splits)
      show ?thesis
      proof (cases ?ts_fails)
        case True
        then have "network_latency_us env' ts' sa = None" using l by simp
        then have "execute_buzz env' data' ts' ?sc = emit [Log Failed_to_handle_sync] sa"
          using e by simp
        then show ?thesis using h True tr by (simp add: haptic_calls_emit)
      next
        case nf: False
        then obtain latency where "network_latency_us env' ts' sa = Some latency"
          using l by (cases "network_latency_us env' ts' sa") auto
        then have "execute_buzz env' data' ts' ?sc =
            record_sample env' latency (activate_motors env' data' sa)"
          using e by simp
        moreover have "trace (record_sample env' latency (activate_motors env' data' sa)) =
            trace (activate_motors env' data' sa)"
          by (simp add: record_sample_def split: option.splits)
        ultimately have "filter is_haptic_call (trace (handle_sync_command env' message' s')) =
            filter is_haptic_call (trace s')
            @ [Haptic_activate (dict_get data' ''left_finger'' (IntV 0))
                 (dict_get data' ''amplitude'' (IntV 100)),
               Haptic_activate (dict_get data' ''right_finger'' (IntV 0))
                 (dict_get data' ''amplitude'' (IntV 100))]"
          using h tr by (simp add: activate_motors_def Let_def haptic_calls_emit)
        then show ?thesis using False nf by (simp only: if_False simp_thms)
      qed
    qed
  qed
  show ?thesis using a b by blast
qed

theorem unknown_command_dropped_witness:
  "parse_sync_message ''SYNC:BOGUS:level|3'' = Some (''BOGUS'', [''level'' \<mapsto> IntV 3], None)
 \<and> ''BOGUS'' \<notin> sync_commands
 \<and> handle_sync_command quiet ''SYNC:BOGUS:level|3'' secondary_idle =
     emit (if debug_enabled quiet then [Log (Unknown_sync_command ''BOGUS'')] else [])
       (secondary_idle\<lparr>last_sync_command_received := Some (t_command quiet)\<rparr>)
 \<and> parse_sync_message ''SYNC:EXECUTE_BUZZ:right_finger|3'' =
     Some (''EXECUTE_BUZZ'', [''right_finger'' \<mapsto> IntV 3], None)
 \<and> filter is_haptic_call
      (trace (handle_sync_command quiet ''SYNC:EXECUTE_BUZZ:right_finger|3'' secondary_idle)) =
     filter is_haptic_call (trace secondary_idle)
     @ [Haptic_activate (IntV 0) (IntV 100), Haptic_activate (IntV 3) (IntV 100)]
 \<and> parse_sync_message ''SYNC:EXECUTE_BUZZ:seq|x'' =
     Some (''EXECUTE_BUZZ'', [''seq'' \<mapsto> StrV ''x''], None)
 \<and> filter is_haptic_call
      (trace (handle_sync_command quiet ''SYNC:EXECUTE_BUZZ:seq|x'' secondary_idle)) =
     filter is_haptic_call (trace secondary_idle)"
proof -
  let ?d = "[''right_finger'' \<mapsto> IntV 3]"
  let ?e = "[''seq'' \<mapsto> StrV ''x'']"
  have 1: "parse_sync_message ''SYNC:BOGUS:level|3'' =
      Some (''BOGUS'', [''level'' \<mapsto> IntV 3], None)"
    by (simp add: py_eval)
  have 2: "''BOGUS'' \<notin> sync_commands" by (simp add: sync_commands_def)
  have 3: "parse_sync_message ''SYNC:EXECUTE_BUZZ:right_finger|3'' =
      Some (''EXECUTE_BUZZ'', ?d, None)"
    by (simp add: py_eval)
  have 4: "parse_sync_message ''SYNC:EXECUTE_BUZZ:seq|x'' = Some (''EXECUTE_BUZZ'', ?e, None)"
    by (simp add: py_eval)
  note t = unknown_command_dropped [where message = "''SYNC:BOGUS:level|3''"
      and command_type = "''BOGUS''" and data = "[''level'' \<mapsto> IntV 3]" and ts = None
      and env = quiet and s = secondary_idle
      and message' = "''SYNC:EXECUTE_BUZZ:right_finger|3''" and data' = ?d and ts' = None
      and env' = quiet and s' = secondary_idle]
  note u = unknown_command_dropped [where message = "''SYNC:BOGUS:level|3''"
      and command_type = "''BOGUS''" and data = "[''level'' \<mapsto> IntV 3]" and ts = None
      and env = quiet and s = secondary_idle
      and message' = "''SYNC:EXECUTE_BUZZ:seq|x''" and data' = ?e and ts' = None
      and env' = quiet and s' = secondary_idle]
  have a: "handle_sync_command quiet ''SYNC:BOGUS:level|3'' secondary_idle =
     emit (if debug_enabled quiet then [Log (Unknown_sync_command ''BOGUS'')] else [])
       (secondary_idle\<lparr>last_sync_command_received := Some (t_command quiet)\<rparr>)"
    by (rule mp [OF t [THEN conjunct1]]) (intro conjI 1 2)
  have b: "filter is_haptic_call
      (trace (handle_sync_command quiet ''SYNC:EXECUTE_BUZZ:right_finger|3'' secondary_idle)) =
     filter is_haptic_call (trace secondary_idle)
     @ [Haptic_activate (IntV 0) (IntV 100), Haptic_activate (IntV 3) (IntV 100)]"
    using mp [OF t [THEN conjunct2] 3] by (simp add: dict_get_def)
  have c: "filter is_haptic_call
      (trace (handle_sync_command quiet ''SYNC:EXECUTE_BUZZ:seq|x'' secondary_idle)) =
     filter is_haptic_call (trace secondary_idle)"
    using mp [OF u [THEN conjunct2] 4] by simp
  show ?thesis by (intro conjI 1 2 a 3 b 4 c)
qed

section \<open>Heartbeat timeout and reconnection\<close>

lemmas recovery_eval = check_heartbeat_def handle_heartbeat_timeout_def
  attempt_reconnect_to_primary_def MAX_ATTEMPTS_def numeral_3_eq_3 numeral_2_eq_2
  scan_and_connect_def force_state_def emit_def Let_def DELAY_SEC_def recovery_event_def

text \<open>
  The loop makes at most three attempts, so the recovery is settled by what the radio does
  in the attempts 0, 1 and 2 and by whether the emergency stop raises.
\<close>

lemma recovery_cases:
  assumes "last_heartbeat_received s = Some t" and "now - t > HEARTBEAT_TIMEOUT_SEC"
  shows "trace (check_heartbeat now stop_raises scan s) =
           trace s @ drop (length (trace s)) (trace (check_heartbeat now stop_raises scan s))"
    and "filter recovery_event
           (drop (length (trace s)) (trace (check_heartbeat now stop_raises scan s))) =
         Haptic_emergency_stop # Force_state CONNECTION_LOST #
         concat (replicate
                   (if scan 0 = Scan_connected then 0
                    else if scan 1 = Scan_connected then 1
                    else if scan 2 = Scan_connected then 2 else 3)
                   [Scan_and_connect (ble_name s) 10 ''primary'', Sleep 2]) @
         (if scan 0 = Scan_connected \<or> scan 1 = Scan_connected \<or> scan 2 = Scan_connected
          then [Scan_and_connect (ble_name s) 10 ''primary'', Force_state READY]
          else [Force_state IDLE])"
    and "last_heartbeat_received (check_heartbeat now stop_raises scan s) = None"
    and "therapy_state (check_heartbeat now stop_raises scan s) =
           (if scan 0 = Scan_connected \<or> scan 1 = Scan_connected \<or> scan 2 = Scan_connected
            then READY else IDLE)"
    and "primary_connection (check_heartbeat now stop_raises scan s) =
           (if scan 0 = Scan_connected \<or> scan 1 = Scan_connected \<or> scan 2 = Scan_connected
            then Some ''primary'' else primary_connection s)"
  using assms
  by (cases "scan 0"; cases "scan 1"; cases "scan 2"; cases stop_raises;
      simp add: recovery_eval)+

text \<open>
  Claim C3. When the heartbeat watchdog of the SECONDARY trips (the last heartbeat is more
  than \<^const>\<open>HEARTBEAT_TIMEOUT_SEC\<close> old), the events that the recovery adds to the trace
  are, in this order and with nothing else among the emergency stops, forced states, scans
  and sleeps: the emergency stop of the actuators; the state forced to CONNECTION\_LOST; one
  scan for the PRIMARY with a window of 10 s followed by a sleep of 2 s for every attempt
  that fails, at most three of them; and then either a scan that connects followed by the
  state forced to READY, or, after three failed attempts, the state forced to IDLE. At the
  end \<^verbatim>\<open>last_heartbeat_received\<close> is cleared, and the state is READY when one of the three
  attempts connects and IDLE when none does.
\<close>

theorem heartbeat_timeout_recovery:
  assumes "last_heartbeat_received s = Some t" and "now - t > HEARTBEAT_TIMEOUT_SEC"
  shows "trace (check_heartbeat now stop_raises scan s) =
           trace s @ drop (length (trace s)) (trace (check_heartbeat now stop_raises scan s))
       \<and> filter recovery_event
           (drop (length (trace s)) (trace (check_heartbeat now stop_raises scan s))) =
         Haptic_emergency_stop # Force_state CONNECTION_LOST #
         concat (replicate
                   (if scan 0 = Scan_connected then 0
                    else if scan 1 = Scan_connected then 1
                    else if scan 2 = Scan_connected then 2 else 3)
                   [Scan_and_connect (ble_name s) 10 ''primary'', Sleep 2]) @
         (if scan 0 = Scan_connected \<or> scan 1 = Scan_connected \<or> scan 2 = Scan_connected
          then [Scan_and_connect (ble_name s) 10 ''primary'', Force_state READY]
          else [Force_state IDLE])
       \<and> last_heartbeat_received (check_heartbeat now stop_raises scan s) = None
       \<and> therapy_state (check_heartbeat now stop_raises scan s) =
           (if scan 0 = Scan_connected \<or> scan 1 = Scan_connected \<or> scan 2 = Scan_connected
            then READY else IDLE)"
proof -
  note r = recovery_cases [OF assms, of stop_raises scan]
  show ?thesis by (intro conjI r(1) r(2) r(3) r(4))
qed

theorem heartbeat_timeout_recovery_witness:
  "last_heartbeat_received secondary_running = Some 0
 \<and> 7 - 0 > HEARTBEAT_TIMEOUT_SEC
 \<and> filter recovery_event
      (drop (length (trace secondary_running))
         (trace (check_heartbeat 7 False second_attempt_connects secondary_running))) =
    [Haptic_emergency_stop, Force_state CONNECTION_LOST,
     Scan_and_connect ''BlueBuzzah'' 10 ''primary'', Sleep 2,
     Scan_and_connect ''BlueBuzzah'' 10 ''primary'', Force_state READY]
 \<and> last_heartbeat_received (check_heartbeat 7 False second_attempt_connects secondary_running) =
    None
 \<and> therapy_state (check_heartbeat 7 False second_attempt_connects secondary_running) = READY
 \<and> filter recovery_event
      (drop (length (trace secondary_running))
         (trace (check_heartbeat 7 False never_found secondary_running))) =
    [Haptic_emergency_stop, Force_state CONNECTION_LOST,
     Scan_and_connect ''BlueBuzzah'' 10 ''primary'', Sleep 2,
     Scan_and_connect ''BlueBuzzah'' 10 ''primary'', Sleep 2,
     Scan_and_connect ''BlueBuzzah'' 10 ''primary'', Sleep 2, Force_state IDLE]
 \<and> therapy_state (check_heartbeat 7 False never_found secondary_running) = IDLE"
proof -
  have 1: "last_heartbeat_received secondary_running = Some 0"
    by (simp add: secondary_running_def)
  have 2: "(7::real) - 0 > HEARTBEAT_TIMEOUT_SEC"
    by (simp add: HEARTBEAT_TIMEOUT_SEC_def)
  have n: "ble_name secondary_running = ''BlueBuzzah''"
    by (simp add: secondary_running_def app_init_def)
  note a = heartbeat_timeout_recovery [where s = secondary_running and t = 0 and now = 7
      and stop_raises = False and scan = second_attempt_connects, OF 1 2]
  note b = heartbeat_timeout_recovery [where s = secondary_running and t = 0 and now = 7
      and stop_raises = False and scan = never_found, OF 1 2]
  have a2: "filter recovery_event
      (drop (length (trace secondary_running))
         (trace (check_heartbeat 7 False second_attempt_connects secondary_running))) =
    [Haptic_emergency_stop, Force_state CONNECTION_LOST,
     Scan_and_connect ''BlueBuzzah'' 10 ''primary'', Sleep 2,
     Scan_and_connect ''BlueBuzzah'' 10 ''primary'', Force_state READY]"
    using a [THEN conjunct2, THEN conjunct1]
    by (simp add: second_attempt_connects_def n)
  have a3: "last_heartbeat_received
      (check_heartbeat 7 False second_attempt_connects secondary_running) = None"
    by (rule a [THEN conjunct2, THEN conjunct2, THEN conjunct1])
  have a4: "therapy_state (check_heartbeat 7 False second_attempt_connects secondary_running) =
      READY"
    using a [THEN conjunct2, THEN conjunct2, THEN conjunct2]
    by (simp add: second_attempt_connects_def)
  have b2: "filter recovery_event
      (drop (length (trace secondary_running))
         (trace (check_heartbeat 7 False never_found secondary_running))) =
    [Haptic_emergency_stop, Force_state CONNECTION_LOST,
     Scan_and_connect ''BlueBuzzah'' 10 ''primary'', Sleep 2,
     Scan_and_connect ''BlueBuzzah'' 10 ''primary'', Sleep 2,
     Scan_and_connect ''BlueBuzzah'' 10 ''primary'', Sleep 2, Force_state IDLE]"
    using b [THEN conjunct2, THEN conjunct1]
    by (simp add: never_found_def n numeral_3_eq_3)
  have b4: "therapy_state (check_heartbeat 7 False never_found secondary_running) = IDLE"
    using b [THEN conjunct2, THEN conjunct2, THEN conjunct2]
    by (simp add: never_found_def)
  show ?thesis by (intro conjI 1 2 a2 a3 a4 b2 b4)
qed

section \<open>Boot sequence of the PRIMARY\<close>

text \<open>
  A wait for a connection id that is not held yet is decided by the radio alone.
\<close>

lemma check_phone_result:
  assumes "''phone'' \<notin> dom (ble_link s)"
  shows "check_phone p s =
           (if phone_arrives p
            then (True, s\<lparr>ble_link := (ble_link s)(''phone'' \<mapsto> BLEConnection_init),
                          phone_connection := Some ''phone''\<rparr>)
            else (False, s\<lparr>ble_link := ble_link s\<rparr>))"
  using assms by (simp add: check_phone_def wait_for_connection_def)

lemma check_secondary_result:
  assumes "''secondary'' \<notin> dom (ble_link s)"
  shows "check_secondary p s =
           (if secondary_arrives p
            then (True, emit [Led indicate_connection_success, Sleep (1 / 2),
                              Led indicate_waiting_for_phone]
                          (s\<lparr>ble_link := (ble_link s)(''secondary'' \<mapsto> BLEConnection_init),
                             secondary_connection := Some ''secondary''\<rparr>))
            else (False, s\<lparr>ble_link := ble_link s\<rparr>))"
  using assms by (simp add: check_secondary_def wait_for_connection_def)

lemma phone_loop:
  assumes "secondary_connection s \<noteq> None" and "phone_connection s = None"
      and "''phone'' \<notin> dom (ble_link s)"
  shows "\<exists>s'. primary_boot_loop polls True False s = (True, \<exists>p\<in>set polls. phone_arrives p, s')
            \<and> secondary_connection s' \<noteq> None
            \<and> (phone_connection s' \<noteq> None) = (\<exists>p\<in>set polls. phone_arrives p)"
  using assms
proof (induction polls arbitrary: s)
  case Nil
  then show ?case by simp
next
  case (Cons p polls)
  let ?s1 = "emit [Led update_animation] s"
  have d: "''phone'' \<notin> dom (ble_link ?s1)" using Cons.prems by (simp add: emit_def)
  show ?case
  proof (cases "phone_arrives p")
    case True
    then show ?thesis using Cons.prems d
      by (simp add: check_phone_result emit_def)
  next
    case False
    let ?s3 = "emit [Sleep (1 / 100)] (?s1\<lparr>ble_link := ble_link ?s1\<rparr>)"
    have step: "primary_boot_loop (p # polls) True False s = primary_boot_loop polls True False ?s3"
      using False d by (simp add: check_phone_result)
    have "secondary_connection ?s3 \<noteq> None" "phone_connection ?s3 = None"
         "''phone'' \<notin> dom (ble_link ?s3)"
      using Cons.prems by (simp_all add: emit_def)
    from Cons.IH [OF this] show ?thesis unfolding step using False by simp
  qed
qed

lemma boot_loop:
  assumes "secondary_connection s = None" and "phone_connection s = None"
      and "''secondary'' \<notin> dom (ble_link s)" and "''phone'' \<notin> dom (ble_link s)"
  shows "\<exists>s'. primary_boot_loop polls False False s =
              (\<exists>p\<in>set polls. secondary_arrives p,
               \<exists>p\<in>set (dropWhile (\<lambda>p. \<not> secondary_arrives p) polls). phone_arrives p, s')
            \<and> (secondary_connection s' \<noteq> None) = (\<exists>p\<in>set polls. secondary_arrives p)
            \<and> (phone_connection s' \<noteq> None) =
                (\<exists>p\<in>set (dropWhile (\<lambda>p. \<not> secondary_arrives p) polls). phone_arrives p)"
  using assms
proof (induction polls arbitrary: s)
  case Nil
  then show ?case by simp
next
  case (Cons p polls)
  let ?s1 = "emit [Led update_animation] s"
  have d: "''secondary'' \<notin> dom (ble_link ?s1)" using Cons.prems by (simp add: emit_def)
  show ?case
  proof (cases "secondary_arrives p")
    case False
    let ?s3 = "emit [Sleep (1 / 100)] (?s1\<lparr>ble_link := ble_link ?s1\<rparr>)"
    have step: "primary_boot_loop (p # polls) False False s = primary_boot_loop polls False False ?s3"
      using False d by (simp add: check_secondary_result)
    have "secondary_connection ?s3 = None" "phone_connection ?s3 = None"
         "''secondary'' \<notin> dom (ble_link ?s3)" "''phone'' \<notin> dom (ble_link ?s3)"
      using Cons.prems by (simp_all add: emit_def)
    from Cons.IH [OF this] show ?thesis unfolding step using False by simp
  next
    case True
    let ?s2 = "emit [Led indicate_connection_success, Sleep (1 / 2), Led indicate_waiting_for_phone]
                 (?s1\<lparr>ble_link := (ble_link ?s1)(''secondary'' \<mapsto> BLEConnection_init),
                       secondary_connection := Some ''secondary''\<rparr>)"
    have d2: "''phone'' \<notin> dom (ble_link ?s2)" using Cons.prems by (simp add: emit_def)
    show ?thesis
    proof (cases "phone_arrives p")
      case pa: True
      show ?thesis using True pa d d2 Cons.prems
        by (simp add: check_secondary_result check_phone_result emit_def)
    next
      case pa: False
      let ?s3 = "emit [Sleep (1 / 100)] (?s2\<lparr>ble_link := ble_link ?s2\<rparr>)"
      have step: "primary_boot_loop (p # polls) False False s = primary_boot_loop polls True False ?s3"
        using True pa d d2 by (simp add: check_secondary_result check_phone_result)
      have "secondary_connection ?s3 \<noteq> None" "phone_connection ?s3 = None"
           "''phone'' \<notin> dom (ble_link ?s3)"
        using Cons.prems by (simp_all add: emit_def)
      from phone_loop [OF this, of polls] show ?thesis unfolding step using True pa by auto
    qed
  qed
qed

lemma boot_sequence:
  assumes "secondary_connection s = None" and "phone_connection s = None"
      and "''secondary'' \<notin> dom (ble_link s)" and "''phone'' \<notin> dom (ble_link s)"
  shows "\<exists>s'. primary_boot_sequence advertise_raises polls s =
           (if advertise_raises \<or> \<not> (\<exists>p\<in>set polls. secondary_arrives p) then FAILED
            else if \<exists>p\<in>set (dropWhile (\<lambda>p. \<not> secondary_arrives p) polls). phone_arrives p
                 then SUCCESS_WITH_PHONE else SUCCESS_NO_PHONE, s')
        \<and> (secondary_connection s' \<noteq> None) =
            (\<not> advertise_raises \<and> (\<exists>p\<in>set polls. secondary_arrives p))
        \<and> (phone_connection s' \<noteq> None) =
            (\<not> advertise_raises \<and>
             (\<exists>p\<in>set (dropWhile (\<lambda>p. \<not> secondary_arrives p) polls). phone_arrives p))"
proof (cases advertise_raises)
  case True
  then show ?thesis using assms by (simp add: primary_boot_sequence_def emit_def)
next
  case False
  let ?s0 = "emit [Led indicate_ble_init, Advertise (ble_name s)] s"
  have "secondary_connection ?s0 = None" "phone_connection ?s0 = None"
       "''secondary'' \<notin> dom (ble_link ?s0)" "''phone'' \<notin> dom (ble_link ?s0)"
    using assms by (simp_all add: emit_def)
  from boot_loop [OF this, of polls] obtain s1 where
    l: "primary_boot_loop polls False False ?s0 =
          (\<exists>p\<in>set polls. secondary_arrives p,
           \<exists>p\<in>set (dropWhile (\<lambda>p. \<not> secondary_arrives p) polls). phone_arrives p, s1)"
    and sc: "(secondary_connection s1 \<noteq> None) = (\<exists>p\<in>set polls. secondary_arrives p)"
    and pc: "(phone_connection s1 \<noteq> None) =
                (\<exists>p\<in>set (dropWhile (\<lambda>p. \<not> secondary_arrives p) polls). phone_arrives p)"
    by blast
  show ?thesis using False l sc pc
    by (auto simp add: primary_boot_sequence_def Let_def emit_def)
qed

text \<open>
  Claim C8. The boot sequence of the PRIMARY, started with no connection held, never
  returns the plain SUCCESS. It returns FAILED exactly when it ends without a SECONDARY
  connection, which is the case exactly when advertising fails or no pass of the polling
  loop inside the startup window sees the SECONDARY arrive. Otherwise it returns
  SUCCESS\_WITH\_PHONE when it ends with a phone connection as well, and SUCCESS\_NO\_PHONE
  when it ends without one; a phone connection is accepted exactly when the phone arrives
  in a pass of the loop that is not before the one in which the SECONDARY arrives.
\<close>

theorem primary_boot_result:
  assumes "secondary_connection s = None" and "phone_connection s = None"
      and "''secondary'' \<notin> dom (ble_link s)" and "''phone'' \<notin> dom (ble_link s)"
  shows "(case primary_boot_sequence advertise_raises polls s of
            (result, s') \<Rightarrow>
              result \<noteq> SUCCESS
            \<and> (result = FAILED) = (secondary_connection s' = None)
            \<and> (result = SUCCESS_WITH_PHONE) =
                (secondary_connection s' \<noteq> None \<and> phone_connection s' \<noteq> None)
            \<and> (result = SUCCESS_NO_PHONE) =
                (secondary_connection s' \<noteq> None \<and> phone_connection s' = None)
            \<and> (secondary_connection s' \<noteq> None) =
                (\<not> advertise_raises \<and> (\<exists>p\<in>set polls. secondary_arrives p))
            \<and> (phone_connection s' \<noteq> None) =
                (\<not> advertise_raises \<and>
                 (\<exists>p\<in>set (dropWhile (\<lambda>p. \<not> secondary_arrives p) polls). phone_arrives p)))"
proof -
  from boot_sequence [OF assms, of advertise_raises polls] obtain s' where
    r: "primary_boot_sequence advertise_raises polls s =
           (if advertise_raises \<or> \<not> (\<exists>p\<in>set polls. secondary_arrives p) then FAILED
            else if \<exists>p\<in>set (dropWhile (\<lambda>p. \<not> secondary_arrives p) polls). phone_arrives p
                 then SUCCESS_WITH_PHONE else SUCCESS_NO_PHONE, s')"
    and sc: "(secondary_connection s' \<noteq> None) =
            (\<not> advertise_raises \<and> (\<exists>p\<in>set polls. secondary_arrives p))"
    and pc: "(phone_connection s' \<noteq> None) =
            (\<not> advertise_raises \<and>
             (\<exists>p\<in>set (dropWhile (\<lambda>p. \<not> secondary_arrives p) polls). phone_arrives p))"
    by blast
  have sub: "\<exists>p\<in>set polls. secondary_arrives p"
    if "\<exists>p\<in>set (dropWhile (\<lambda>p. \<not> secondary_arrives p) polls). phone_arrives p"
    using that by (metis dropWhile_eq_Nil_conv empty_iff list.set(1))
  show ?thesis unfolding r using sc pc sub by auto
qed

theorem primary_boot_result_witness:
  "secondary_connection (app_init PRIMARY ''BlueBuzzah'') = None
 \<and> phone_connection (app_init PRIMARY ''BlueBuzzah'') = None
 \<and> ''secondary'' \<notin> dom (ble_link (app_init PRIMARY ''BlueBuzzah''))
 \<and> ''phone'' \<notin> dom (ble_link (app_init PRIMARY ''BlueBuzzah''))
 \<and> fst (primary_boot_sequence False secondary_in_second_pass (app_init PRIMARY ''BlueBuzzah'')) =
     SUCCESS_NO_PHONE
 \<and> secondary_connection
      (snd (primary_boot_sequence False secondary_in_second_pass (app_init PRIMARY ''BlueBuzzah''))) \<noteq>
     None
 \<and> phone_connection
      (snd (primary_boot_sequence False secondary_in_second_pass (app_init PRIMARY ''BlueBuzzah''))) =
     None
 \<and> fst (primary_boot_sequence False [] (app_init PRIMARY ''BlueBuzzah'')) = FAILED"
proof -
  let ?s = "app_init PRIMARY ''BlueBuzzah''"
  have 1: "secondary_connection ?s = None" by (simp add: app_init_def)
  have 2: "phone_connection ?s = None" by (simp add: app_init_def)
  have 3: "''secondary'' \<notin> dom (ble_link ?s)" by (simp add: app_init_def)
  have 4: "''phone'' \<notin> dom (ble_link ?s)" by (simp add: app_init_def)
  note a = primary_boot_result [where s = ?s and advertise_raises = False
      and polls = secondary_in_second_pass, OF 1 2 3 4]
  note b = primary_boot_result [where s = ?s and advertise_raises = False
      and polls = "[]", OF 1 2 3 4]
  have a1: "fst (primary_boot_sequence False secondary_in_second_pass ?s) = SUCCESS_NO_PHONE"
    using a by (simp add: case_prod_beta secondary_in_second_pass_def)
  have a2: "secondary_connection
      (snd (primary_boot_sequence False secondary_in_second_pass ?s)) \<noteq> None"
    using a by (simp add: case_prod_beta secondary_in_second_pass_def)
  have a3: "phone_connection
      (snd (primary_boot_sequence False secondary_in_second_pass ?s)) = None"
    using a by (simp add: case_prod_beta secondary_in_second_pass_def)
  have b1: "fst (primary_boot_sequence False [] ?s) = FAILED"
    using b by (simp add: case_prod_beta)
  show ?thesis by (intro conjI 1 2 3 4 a1 a2 a3 b1)
qed

end
